theory Spec2Isabelle
  imports Main
begin

section \<open>Strings and numbers of the host language\<close>

text \<open>
  A string is a list of code units; the embedding uses the 8-bit \<open>char\<close> of HOL, so
  it covers names and contents whose code units are below 256.
\<close>

definition digit_char :: "nat \<Rightarrow> char" where
  "digit_char d = char_of (48 + d)"

text \<open>\<open>String(n)\<close> for a non-negative integer: its decimal digits.\<close>

function String_nat :: "nat \<Rightarrow> string" where
  "String_nat n =
     (if n < 10 then [digit_char n] else String_nat (n div 10) @ [digit_char (n mod 10)])"
  by pat_completeness auto
termination
  by (relation "measure (\<lambda>n. n)") auto

declare String_nat.simps [simp del]

text \<open>\<open>`${year}`\<close>: a negative number prints with a leading minus sign.\<close>

definition String_int :: "int \<Rightarrow> string" where
  "String_int i = (if i < 0 then CHR ''-'' # String_nat (nat (- i)) else String_nat (nat i))"

text \<open>\<open>s.padStart(n, c)\<close> with a one-character filler.\<close>

definition padStart :: "nat \<Rightarrow> char \<Rightarrow> string \<Rightarrow> string" where
  "padStart n c s = replicate (n - length s) c @ s"

definition is_digit :: "char \<Rightarrow> bool" where
  "is_digit c = (48 \<le> (of_char c :: nat) \<and> (of_char c :: nat) \<le> 57)"

section \<open>The clock\<close>

text \<open>
  The fields that the getters of \<open>new Date()\<close> return, in local time:
  \<open>getFullYear\<close>, \<open>getMonth\<close> (0 to 11), \<open>getDate\<close>, \<open>getHours\<close>,
  \<open>getMinutes\<close>, \<open>getSeconds\<close>.
\<close>

record date =
  getFullYear :: int
  getMonth :: nat
  getDate :: nat
  getHours :: nat
  getMinutes :: nat
  getSeconds :: nat

definition getTimestamp :: "date \<Rightarrow> string" where
  "getTimestamp now =
     (let year = getFullYear now;
          month = padStart 2 CHR ''0'' (String_nat (getMonth now + 1));
          day = padStart 2 CHR ''0'' (String_nat (getDate now));
          hour = padStart 2 CHR ''0'' (String_nat (getHours now));
          minute = padStart 2 CHR ''0'' (String_nat (getMinutes now));
          second = padStart 2 CHR ''0'' (String_nat (getSeconds now))
      in String_int year @ month @ day @ hour @ minute @ second)"

text \<open>
  The values a real clock returns: the ranges of the getters, and a year of four
  digits.
\<close>

definition valid_date :: "date \<Rightarrow> bool" where
  "valid_date now =
     (1000 \<le> getFullYear now \<and> getFullYear now \<le> 9999 \<and> getMonth now < 12 \<and>
      1 \<le> getDate now \<and> getDate now \<le> 31 \<and> getHours now < 24 \<and>
      getMinutes now < 60 \<and> getSeconds now < 60)"

section \<open>The vault\<close>

text \<open>
  The fields of a \<open>TFile\<close> that the plugin reads. \<open>parent\<close> is the path of the
  parent folder (\<open>file.parent.path\<close>), \<open>None\<close> when \<open>file.parent\<close> is null.
\<close>

record tfile =
  path :: string
  basename :: string
  extension :: string
  parent :: "string option"

datatype io_call =
  IoExists string | IoCreateFolder string | IoRead string | IoCreate string | IoDelete string

text \<open>
  Modelled from the spec: the storage abstraction of the host (section 6), which is not
  part of the repository. A vault holds its folders, its files in the order in which
  \<open>getFiles\<close> lists them, each with its content, and the storage calls that fail with
  an underlying error (\<open>broken\<close>).
\<close>

record vault =
  folders :: "string list"
  files :: "(tfile \<times> string) list"
  broken :: "io_call list"

text \<open>
  The outcomes that the plugin reports: no active file, no archive folder, no snapshot
  of the document, and the failure notice of the \<open>catch\<close> clause. \<open>Unmodelled\<close> is
  not an outcome of the plugin: it marks a run in which the pattern engine answered
  \<open>Unsupported\<close>, which only the engine of the fragment of the pattern language does
  that this theory gives a meaning to.
\<close>

datatype error = NoActiveDocument | ArchiveMissing | NoSnapshots | StorageFailure | Unmodelled

definition getFiles :: "vault \<Rightarrow> tfile list" where
  "getFiles v = map fst (files v)"

definition paths :: "vault \<Rightarrow> string list" where
  "paths v = map path (getFiles v)"

text \<open>Modelled from the spec: \<open>exists(path) -> bool\<close>; the root always exists.\<close>

definition adapter_exists :: "vault \<Rightarrow> string \<Rightarrow> error + bool" where
  "adapter_exists v p =
     (if IoExists p \<in> set (broken v) then Inl StorageFailure
      else Inr (p = ''/'' \<or> p \<in> set (folders v) \<or> p \<in> set (paths v)))"

text \<open>Modelled from the spec: \<open>createFolder(path)\<close>, idempotent.\<close>

definition createFolder :: "vault \<Rightarrow> string \<Rightarrow> error + vault" where
  "createFolder v p =
     (if IoCreateFolder p \<in> set (broken v) then Inl StorageFailure
      else Inr (v\<lparr>folders := List.insert p (folders v)\<rparr>))"

text \<open>Modelled from the spec: \<open>read(entryRef)\<close>, the content stored at the path of the file.\<close>

definition vault_read :: "vault \<Rightarrow> tfile \<Rightarrow> error + string" where
  "vault_read v f =
     (if IoRead (path f) \<in> set (broken v) then Inl StorageFailure
      else (case map_of (map (\<lambda>(g, c). (path g, c)) (files v)) (path f) of
              None \<Rightarrow> Inl StorageFailure
            | Some c \<Rightarrow> Inr c))"

text \<open>
  The part of a string after the last occurrence of a character (the whole string when
  there is none) and the part before it (empty when there is none).
\<close>

definition after_last :: "char \<Rightarrow> string \<Rightarrow> string" where
  "after_last c s = rev (takeWhile (\<lambda>x. x \<noteq> c) (rev s))"

definition before_last :: "char \<Rightarrow> string \<Rightarrow> string" where
  "before_last c s = rev (drop 1 (dropWhile (\<lambda>x. x \<noteq> c) (rev s)))"

text \<open>
  Modelled from the spec: the entry that the host makes for a path. Its name is the part
  after the last separator, its parent the part before it (the root \<open>/\<close> for a file at
  top level), and the extension is what follows the last dot of the name.
\<close>

definition tfile_of_path :: "string \<Rightarrow> tfile" where
  "tfile_of_path p =
     (let name = after_last CHR ''/'' p;
          dir = before_last CHR ''/'' p
      in \<lparr>path = p,
          basename = (if CHR ''.'' \<in> set name then before_last CHR ''.'' name else name),
          extension = (if CHR ''.'' \<in> set name then after_last CHR ''.'' name else []),
          parent = Some (if dir = [] then ''/'' else dir)\<rparr>)"

text \<open>
  Modelled from the spec: \<open>create(path, content)\<close> fails if an entry already exists at
  the path; the new file comes last in the listing.
\<close>

definition vault_create :: "vault \<Rightarrow> string \<Rightarrow> string \<Rightarrow> error + vault" where
  "vault_create v p content =
     (if IoCreate p \<in> set (broken v) \<or> p \<in> set (paths v) then Inl StorageFailure
      else Inr (v\<lparr>files := files v @ [(tfile_of_path p, content)]\<rparr>))"

text \<open>Modelled from the spec: \<open>delete(entryRef)\<close> removes the entry at the path of the file.\<close>

definition vault_delete :: "vault \<Rightarrow> tfile \<Rightarrow> error + vault" where
  "vault_delete v f =
     (if IoDelete (path f) \<in> set (broken v) \<or> path f \<notin> set (paths v) then Inl StorageFailure
      else Inr (v\<lparr>files := filter (\<lambda>(g, c). path g \<noteq> path f) (files v)\<rparr>))"

text \<open>
  Modelled from the spec: path normalization collapses redundant separators into a
  canonical path string. The segments of a path are its maximal non-empty runs without
  a separator; the canonical path joins them with single separators, and is the root
  \<open>/\<close> when there is none.
\<close>

function segments :: "string \<Rightarrow> string list" where
  "segments [] = []"
| "segments (c # cs) =
     (if c = CHR ''/'' then segments cs
      else (c # takeWhile (\<lambda>x. x \<noteq> CHR ''/'') cs) # segments (dropWhile (\<lambda>x. x \<noteq> CHR ''/'') cs))"
  by pat_completeness auto
termination
  by (relation "measure length") (auto simp: less_Suc_eq_le length_dropWhile_le)

fun join_path :: "string list \<Rightarrow> string" where
  "join_path [] = []"
| "join_path [s] = s"
| "join_path (s # t # ss) = s @ CHR ''/'' # join_path (t # ss)"

definition normalizePath :: "string \<Rightarrow> string" where
  "normalizePath p = (let segs = segments p in if segs = [] then ''/'' else join_path segs)"

section \<open>Settings\<close>

datatype sort_order = Asc | Desc

record settings =
  legacyFolder :: string
  sortOrder :: sort_order

definition DEFAULT_SETTINGS :: settings where
  "DEFAULT_SETTINGS = \<lparr>legacyFolder = ''legacy'', sortOrder = Asc\<rparr>"

section \<open>createLegacyFile\<close>

text \<open>
  The result is the notice shown to the user: the name of the new file on success, the
  kind of failure otherwise. Every exception raised inside the \<open>try\<close> block ends in
  the \<open>catch\<close> clause, which reports \<open>StorageFailure\<close>; the vault is returned as the
  calls made so far have left it.
\<close>

definition createLegacyFile ::
  "settings \<Rightarrow> date \<Rightarrow> tfile option \<Rightarrow> vault \<Rightarrow> (error + string) \<times> vault" where
  "createLegacyFile st now active v =
     (case active of
        None \<Rightarrow> (Inl NoActiveDocument, v)
      | Some activeFile \<Rightarrow>
          (case vault_read v activeFile of
             Inl e \<Rightarrow> (Inl StorageFailure, v)
           | Inr content \<Rightarrow>
               (let baseName = basename activeFile;
                    timestamp = getTimestamp now;
                    newFileName = baseName @ ''_legacy_'' @ timestamp @ ''.md'';
                    legacyFolderPath = normalizePath (legacyFolder st)
                in (case adapter_exists v legacyFolderPath of
                      Inl e \<Rightarrow> (Inl StorageFailure, v)
                    | Inr ex \<Rightarrow>
                        (case (if \<not> ex then createFolder v legacyFolderPath else Inr v) of
                           Inl e \<Rightarrow> (Inl StorageFailure, v)
                         | Inr v1 \<Rightarrow>
                             (let newFilePath = normalizePath (legacyFolderPath @ ''/'' @ newFileName)
                              in (case vault_create v1 newFilePath content of
                                    Inl e \<Rightarrow> (Inl StorageFailure, v1)
                                  | Inr v2 \<Rightarrow> (Inr newFileName, v2))))))))"

section \<open>Regular expressions\<close>

text \<open>
  The fragment of the pattern language of \<open>RegExp\<close> (no flags) that the theory gives a
  meaning to: pattern characters, \<open>.\<close>, the class escapes \<open>\d \D \w \W \s \S\<close>, control and
  identity escapes, \<open>^\<close> and \<open>$\<close>, groups, alternation, and the quantifiers
  \<open>* + ? {n} {n,} {n,m}\<close>, greedy or lazy. Character classes in brackets, lookaround,
  word boundaries, backreferences, numeric escapes and quantifier bounds above
  \<open>2^31 - 1\<close> are outside the fragment.
\<close>

datatype char_class = Digit | Word | Space

datatype regex =
    Chr char
  | AnyChar
  | Cls bool char_class
  | Bol
  | Eol
  | Empty
  | Seq regex regex
  | Alt regex regex
  | Group regex
  | Repeat regex nat "nat option"

datatype token =
    TChr char
  | TAny
  | TCls bool char_class
  | TBol
  | TEol
  | TOpen
  | TClose
  | TBar
  | TQuant nat "nat option"

datatype regexp_error = SyntaxError | Unsupported

definition is_word_char :: "char \<Rightarrow> bool" where
  "is_word_char c =
     (let n = (of_char c :: nat)
      in (97 \<le> n \<and> n \<le> 122) \<or> (65 \<le> n \<and> n \<le> 90) \<or> (48 \<le> n \<and> n \<le> 57) \<or> n = 95)"

definition is_space_char :: "char \<Rightarrow> bool" where
  "is_space_char c = ((of_char c :: nat) \<in> {9, 10, 11, 12, 13, 32, 160})"

definition is_line_terminator :: "char \<Rightarrow> bool" where
  "is_line_terminator c = ((of_char c :: nat) \<in> {10, 13})"

fun in_class :: "char_class \<Rightarrow> char \<Rightarrow> bool" where
  "in_class Digit c = is_digit c"
| "in_class Word c = is_word_char c"
| "in_class Space c = is_space_char c"

text \<open>The token for the character after a backslash.\<close>

definition escape :: "char \<Rightarrow> regexp_error + token" where
  "escape c =
     (if c = CHR ''d'' then Inr (TCls False Digit)
      else if c = CHR ''D'' then Inr (TCls True Digit)
      else if c = CHR ''w'' then Inr (TCls False Word)
      else if c = CHR ''W'' then Inr (TCls True Word)
      else if c = CHR ''s'' then Inr (TCls False Space)
      else if c = CHR ''S'' then Inr (TCls True Space)
      else if c = CHR ''t'' then Inr (TChr (char_of (9 :: nat)))
      else if c = CHR ''n'' then Inr (TChr (char_of (10 :: nat)))
      else if c = CHR ''v'' then Inr (TChr (char_of (11 :: nat)))
      else if c = CHR ''f'' then Inr (TChr (char_of (12 :: nat)))
      else if c = CHR ''r'' then Inr (TChr (char_of (13 :: nat)))
      else if is_digit c \<or> c \<in> set ''bBcxuk'' then Inl Unsupported
      else Inr (TChr c))"

definition nat_of_digits :: "string \<Rightarrow> nat" where
  "nat_of_digits ds = foldl (\<lambda>a c. 10 * a + ((of_char c :: nat) - 48)) 0 ds"

text \<open>
  A braced quantifier after the opening brace: \<open>n}\<close>, \<open>n,}\<close> or \<open>n,m}\<close>; the result holds
  the bounds and the rest of the pattern. A brace that opens no quantifier is a
  pattern character.
\<close>

definition closing :: "nat \<Rightarrow> nat option \<Rightarrow> string \<Rightarrow> (nat \<times> nat option \<times> string) option" where
  "closing lo hi r =
     (case r of [] \<Rightarrow> None | c # r' \<Rightarrow> if c = CHR ''}'' then Some (lo, hi, r') else None)"

definition braced :: "string \<Rightarrow> (nat \<times> nat option \<times> string) option" where
  "braced cs =
     (let ds = takeWhile is_digit cs; r = dropWhile is_digit cs
      in if ds = [] then None
         else (case r of
                 [] \<Rightarrow> None
               | c # r1 \<Rightarrow>
                   if c = CHR ''}'' then Some (nat_of_digits ds, Some (nat_of_digits ds), r1)
                   else if c = CHR '','' then
                     (let es = takeWhile is_digit r1; r2 = dropWhile is_digit r1
                      in if es = [] then closing (nat_of_digits ds) None r2
                         else closing (nat_of_digits ds) (Some (nat_of_digits es)) r2)
                   else None))"

text \<open>
  The engine keeps a bound of a quantifier in 31 bits and takes a larger one for no
  bound at all, where the language definition compares the numbers as written; a
  quantifier with such a bound is outside the fragment.
\<close>

definition beyond_31_bits :: "nat \<Rightarrow> nat option \<Rightarrow> bool" where
  "beyond_31_bits lo hi =
     (if 2147483647 < int lo then True
      else (case hi of None \<Rightarrow> False | Some h \<Rightarrow> 2147483647 < int h))"

text \<open>A quantifier may be followed by \<open>?\<close>, which makes it lazy.\<close>

definition skip_lazy :: "string \<Rightarrow> string" where
  "skip_lazy cs = (case cs of [] \<Rightarrow> [] | c # r \<Rightarrow> if c = CHR ''?'' then r else c # r)"

text \<open>The first token of a non-empty pattern and the rest of the pattern.\<close>

definition next_token :: "char \<Rightarrow> string \<Rightarrow> regexp_error + token \<times> string" where
  "next_token c cs =
     (if c = CHR 0x5C then
        (case cs of
           [] \<Rightarrow> Inl SyntaxError
         | d # ds \<Rightarrow> (case escape d of Inl e \<Rightarrow> Inl e | Inr t \<Rightarrow> Inr (t, ds)))
      else if c = CHR ''('' then
        (case cs of
           [] \<Rightarrow> Inr (TOpen, cs)
         | d # ds \<Rightarrow>
             if d = CHR ''?'' then
               (case ds of
                  [] \<Rightarrow> Inl SyntaxError
                | e # es \<Rightarrow>
                    if e = CHR '':'' then Inr (TOpen, es)
                    else if e \<in> set ''=!<'' then Inl Unsupported
                    else Inl SyntaxError)
             else Inr (TOpen, cs))
      else if c = CHR '')'' then Inr (TClose, cs)
      else if c = CHR ''|'' then Inr (TBar, cs)
      else if c = CHR ''^'' then Inr (TBol, cs)
      else if c = CHR ''$'' then Inr (TEol, cs)
      else if c = CHR ''.'' then Inr (TAny, cs)
      else if c = CHR ''*'' then Inr (TQuant 0 None, skip_lazy cs)
      else if c = CHR ''+'' then Inr (TQuant 1 None, skip_lazy cs)
      else if c = CHR ''?'' then Inr (TQuant 0 (Some 1), skip_lazy cs)
      else if c = CHR ''['' then Inl Unsupported
      else if c = CHR ''{'' then
        (case braced cs of
           None \<Rightarrow> Inr (TChr c, cs)
         | Some (lo, hi, r) \<Rightarrow>
             if beyond_31_bits lo hi then Inl Unsupported
             else Inr (TQuant lo hi, skip_lazy r))
      else Inr (TChr c, cs))"

lemma length_skip_lazy: "length (skip_lazy cs) \<le> length cs"
  by (simp add: skip_lazy_def split: list.splits)

lemma closing_length: "closing lo hi r = Some (a, b, r') \<Longrightarrow> length r' < length r"
  by (auto simp: closing_def split: list.splits if_splits)

lemma braced_length:
  assumes "braced cs = Some (lo, hi, r)"
  shows "length r < length cs"
proof -
  obtain c r1 where r1: "dropWhile is_digit cs = c # r1"
    using assms by (auto simp: braced_def Let_def split: list.splits if_splits)
  have "length (dropWhile is_digit cs) \<le> length cs"
    by (rule length_dropWhile_le)
  then have l1: "length r1 < length cs"
    using r1 by simp
  have l2: "length (dropWhile is_digit r1) \<le> length r1"
    by (rule length_dropWhile_le)
  from assms r1 have "r = r1 \<or> length r < length (dropWhile is_digit r1)"
    by (auto simp: braced_def Let_def split: if_splits dest: closing_length)
  with l1 l2 show ?thesis
    by auto
qed

lemma skip_lazy_shorter: "length b < n \<Longrightarrow> length (skip_lazy b) \<le> n"
  using length_skip_lazy [of b] by simp

lemma next_token_length: "next_token c cs = Inr (t, r) \<Longrightarrow> length r \<le> length cs"
  using length_skip_lazy [of cs]
  by (auto simp: next_token_def split: if_splits list.splits sum.splits option.splits
      dest!: braced_length intro: skip_lazy_shorter)

function lex :: "string \<Rightarrow> regexp_error + token list" where
  "lex [] = Inr []"
| "lex (c # cs) =
     (case next_token c cs of
        Inl e \<Rightarrow> Inl e
      | Inr (t, r) \<Rightarrow> (case lex r of Inl e \<Rightarrow> Inl e | Inr ts \<Rightarrow> Inr (t # ts)))"
  by pat_completeness auto
termination
  by (relation "measure length") (auto simp: less_Suc_eq_le dest: next_token_length)

text \<open>
  The parser keeps, for the group it is in, the alternatives already closed and the
  terms of the current alternative, both latest first; a term carries whether a
  quantifier may follow it. The stack holds the same for the enclosing groups.
\<close>

type_synonym frame = "regex list \<times> (regex \<times> bool) list"

definition seq_of :: "(regex \<times> bool) list \<Rightarrow> regex" where
  "seq_of cur = foldl (\<lambda>acc t. Seq (fst t) acc) Empty cur"

definition close_frame :: "frame \<Rightarrow> regex" where
  "close_frame fr = foldl (\<lambda>acc a. Alt a acc) (seq_of (snd fr)) (fst fr)"

fun parse :: "frame \<Rightarrow> frame list \<Rightarrow> token list \<Rightarrow> regexp_error + regex" where
  "parse fr st [] = (if st = [] then Inr (close_frame fr) else Inl SyntaxError)"
| "parse fr st (TOpen # ts) = parse ([], []) (fr # st) ts"
| "parse fr st (TClose # ts) =
     (case st of
        [] \<Rightarrow> Inl SyntaxError
      | outer # st' \<Rightarrow> parse (fst outer, (Group (close_frame fr), True) # snd outer) st' ts)"
| "parse fr st (TBar # ts) = parse (seq_of (snd fr) # fst fr, []) st ts"
| "parse fr st (TQuant lo hi # ts) =
     (case snd fr of
        [] \<Rightarrow> Inl SyntaxError
      | t # cur \<Rightarrow>
          if snd t \<and> (case hi of None \<Rightarrow> True | Some h \<Rightarrow> lo \<le> h)
          then parse (fst fr, (Repeat (fst t) lo hi, False) # cur) st ts
          else Inl SyntaxError)"
| "parse fr st (TBol # ts) = parse (fst fr, (Bol, False) # snd fr) st ts"
| "parse fr st (TEol # ts) = parse (fst fr, (Eol, False) # snd fr) st ts"
| "parse fr st (TAny # ts) = parse (fst fr, (AnyChar, True) # snd fr) st ts"
| "parse fr st (TCls neg k # ts) = parse (fst fr, (Cls neg k, True) # snd fr) st ts"
| "parse fr st (TChr c # ts) = parse (fst fr, (Chr c, True) # snd fr) st ts"

text \<open>\<open>new RegExp(source)\<close>: the pattern, or the error that the constructor raises.\<close>

definition RegExp :: "string \<Rightarrow> regexp_error + regex" where
  "RegExp source = (case lex source of Inl e \<Rightarrow> Inl e | Inr ts \<Rightarrow> parse ([], []) [] ts)"

text \<open>
  Matching: \<open>ends r n t\<close> lists what can remain of the input after \<open>r\<close> has matched at
  the front of \<open>t\<close>, where \<open>t\<close> is what remains of an input of length \<open>n\<close>.
\<close>

fun steps :: "nat \<Rightarrow> (string \<Rightarrow> string list) \<Rightarrow> string list \<Rightarrow> string list" where
  "steps 0 f ts = ts"
| "steps (Suc k) f ts = steps k f (concat (map f ts))"

fun upto_steps :: "nat \<Rightarrow> (string \<Rightarrow> string list) \<Rightarrow> string list \<Rightarrow> string list" where
  "upto_steps 0 f ts = ts"
| "upto_steps (Suc k) f ts = ts @ upto_steps k f (concat (map f ts))"

definition one_char :: "(char \<Rightarrow> bool) \<Rightarrow> string \<Rightarrow> string list" where
  "one_char ok t = (case t of [] \<Rightarrow> [] | x # xs \<Rightarrow> if ok x then [xs] else [])"

primrec ends :: "regex \<Rightarrow> nat \<Rightarrow> string \<Rightarrow> string list" where
  "ends (Chr c) n = one_char (\<lambda>x. x = c)"
| "ends AnyChar n = one_char (\<lambda>x. \<not> is_line_terminator x)"
| "ends (Cls neg k) n = one_char (\<lambda>x. in_class k x \<noteq> neg)"
| "ends Bol n = (\<lambda>t. if length t = n then [t] else [])"
| "ends Eol n = (\<lambda>t. if t = [] then [t] else [])"
| "ends Empty n = (\<lambda>t. [t])"
| "ends (Seq r1 r2) n = (\<lambda>t. concat (map (ends r2 n) (ends r1 n t)))"
| "ends (Alt r1 r2) n = (\<lambda>t. ends r1 n t @ ends r2 n t)"
| "ends (Group r) n = ends r n"
| "ends (Repeat r lo hi) n =
     (\<lambda>t. upto_steps (case hi of None \<Rightarrow> length t | Some h \<Rightarrow> h - lo) (ends r n)
            (steps lo (ends r n) [t]))"

fun tails :: "string \<Rightarrow> string list" where
  "tails [] = [[]]"
| "tails (x # xs) = (x # xs) # tails xs"

text \<open>\<open>pattern.test(s)\<close>: the pattern matches somewhere in \<open>s\<close>.\<close>

definition test :: "regex \<Rightarrow> string \<Rightarrow> bool" where
  "test pattern s = list_ex (\<lambda>t. ends pattern (length s) t \<noteq> []) (tails s)"

text \<open>
  \<open>new RegExp(source).test(s)\<close> as a whole: the error of the constructor, or the answer
  of the test. This is the pattern engine of the fragment.
\<close>

definition RegExp_test :: "string \<Rightarrow> string \<Rightarrow> regexp_error + bool" where
  "RegExp_test source s =
     (case RegExp source of Inl e \<Rightarrow> Inl e | Inr pattern \<Rightarrow> Inr (test pattern s))"

text \<open>
  \<open>s.match(/_legacy_(\d{14})$/)\<close>: the first group of the match, when \<open>s\<close> ends with
  \<open>_legacy_\<close> and fourteen digits, and no match otherwise.
\<close>

definition match_legacy_timestamp :: "string \<Rightarrow> string option" where
  "match_legacy_timestamp s =
     (let n = length s
      in if 22 \<le> n \<and> take 8 (drop (n - 22) s) = ''_legacy_'' \<and> list_all is_digit (drop (n - 14) s)
         then Some (drop (n - 14) s) else None)"

section \<open>Sorting\<close>

text \<open>
  \<open>a.localeCompare(b)\<close> on timestamps: the strings compared are runs of fourteen
  decimal digits, on which the collation order is the order of the code units.
\<close>

fun localeCompare :: "string \<Rightarrow> string \<Rightarrow> int" where
  "localeCompare [] [] = 0"
| "localeCompare [] (y # ys) = - 1"
| "localeCompare (x # xs) [] = 1"
| "localeCompare (x # xs) (y # ys) =
     (if (of_char x :: nat) < of_char y then - 1
      else if (of_char y :: nat) < of_char x then 1
      else localeCompare xs ys)"

text \<open>\<open>Array.prototype.sort\<close> with a comparator: a stable sort.\<close>

fun insert_sorted :: "('a \<Rightarrow> 'a \<Rightarrow> int) \<Rightarrow> 'a \<Rightarrow> 'a list \<Rightarrow> 'a list" where
  "insert_sorted cmp x [] = [x]"
| "insert_sorted cmp x (y # ys) =
     (if cmp x y \<le> 0 then x # y # ys else y # insert_sorted cmp x ys)"

definition sort_with :: "('a \<Rightarrow> 'a \<Rightarrow> int) \<Rightarrow> 'a list \<Rightarrow> 'a list" where
  "sort_with cmp xs = foldr (insert_sorted cmp) xs []"

section \<open>preserveLegacyFiles\<close>

text \<open>
  The objects \<open>{ file, timestamp }\<close> of \<open>filesWithTimestamp\<close>; the field \<open>file\<close> is
  written \<open>file'\<close>.
\<close>

record stamped =
  file' :: tfile
  timestamp :: string

text \<open>The source of the pattern built from the base name of the active file.\<close>

definition legacy_pattern :: "string \<Rightarrow> string" where
  "legacy_pattern baseName = ''^'' @ baseName @ ''_legacy_'' @ [CHR 0x5C] @ ''d{14}$''"

text \<open>
  The pattern engine of the host is a parameter of the model: \<open>engine source s\<close> is what
  \<open>new RegExp(source).test(s)\<close> gives, the error of the constructor or the answer of
  the test. What holds for every engine holds for the engine of the host; the engine
  of the fragment, \<open>RegExp_test\<close>, stands for it where a pattern is evaluated, and only
  this one answers \<open>Unsupported\<close>.
\<close>

type_synonym pattern_engine = "string \<Rightarrow> string \<Rightarrow> regexp_error + bool"

text \<open>
  The pattern test in the callback of \<open>allFiles.filter\<close>: the pattern is built from the
  base name of the active file and applied to the base name of a file.
\<close>

definition matchesPattern :: "pattern_engine \<Rightarrow> string \<Rightarrow> string \<Rightarrow> regexp_error + bool" where
  "matchesPattern engine baseName name = engine (legacy_pattern baseName) name"

text \<open>
  The callback of \<open>allFiles.filter\<close>, run on each file in turn; it builds the pattern
  anew for each file, so a pattern that \<open>RegExp\<close> rejects raises once there is a file.
\<close>

fun filter_legacy ::
  "pattern_engine \<Rightarrow> string \<Rightarrow> string \<Rightarrow> tfile list \<Rightarrow> error + tfile list" where
  "filter_legacy engine baseName legacyFolderPath [] = Inr []"
| "filter_legacy engine baseName legacyFolderPath (f # rest) =
     (let fileFolder = (case parent f of Some p \<Rightarrow> normalizePath p | None \<Rightarrow> []);
          isInLegacyFolder = (fileFolder = legacyFolderPath)
      in (case matchesPattern engine baseName (basename f) of
            Inl SyntaxError \<Rightarrow> Inl StorageFailure
          | Inl Unsupported \<Rightarrow> Inl Unmodelled
          | Inr matches \<Rightarrow>
              (case filter_legacy engine baseName legacyFolderPath rest of
                 Inl e \<Rightarrow> Inl e
               | Inr keep \<Rightarrow> Inr (if isInLegacyFolder \<and> matches then f # keep else keep))))"

definition with_timestamp :: "tfile \<Rightarrow> stamped" where
  "with_timestamp f =
     \<lparr>file' = f,
      timestamp = (case match_legacy_timestamp (basename f) of
                     Some t \<Rightarrow> t
                   | None \<Rightarrow> ''00000000000000'')\<rparr>"

definition compare_stamped :: "sort_order \<Rightarrow> stamped \<Rightarrow> stamped \<Rightarrow> int" where
  "compare_stamped order a b =
     (if order = Asc then localeCompare (timestamp a) (timestamp b)
      else localeCompare (timestamp b) (timestamp a))"

definition separator :: string where
  "separator = [CHR 0x0A] @ ''___'' @ [CHR 0x0A, CHR 0x0A]"

definition header :: "string \<Rightarrow> string \<Rightarrow> string" where
  "header baseName ts = ''# '' @ baseName @ ''_legacy_'' @ ts @ [CHR 0x0A, CHR 0x0A]"

text \<open>
  The loop that builds the content: \<open>i\<close> is the index, \<open>preservedContent\<close> and
  \<open>timestamps\<close> are the variables it updates, and the list holds the entries from
  index \<open>i\<close> on.
\<close>

fun content_loop ::
  "vault \<Rightarrow> string \<Rightarrow> nat \<Rightarrow> stamped list \<Rightarrow> string \<Rightarrow> string list \<Rightarrow> error + string \<times> string list" where
  "content_loop v baseName i [] preservedContent timestamps = Inr (preservedContent, timestamps)"
| "content_loop v baseName i (e # rest) preservedContent timestamps =
     (case vault_read v (file' e) of
        Inl err \<Rightarrow> Inl StorageFailure
      | Inr content \<Rightarrow>
          content_loop v baseName (Suc i) rest
            ((if i > 0 then preservedContent @ separator else preservedContent)
              @ header baseName (timestamp e) @ content)
            (timestamps @ [timestamp e]))"

text \<open>
  \<open>timestamps[0]\<close> and \<open>timestamps[timestamps.length - 1]\<close> inside a template: an
  index out of range gives \<open>undefined\<close>, which prints as that word.
\<close>

definition first_of :: "string list \<Rightarrow> string" where
  "first_of xs = (case xs of [] \<Rightarrow> ''undefined'' | x # _ \<Rightarrow> x)"

definition last_of :: "string list \<Rightarrow> string" where
  "last_of xs = (if xs = [] then ''undefined'' else last xs)"

text \<open>
  The loop that deletes the snapshots; it stops at the first deletion that fails. The
  result holds the error, if any, and the vault as the loop has left it.
\<close>

fun delete_loop :: "vault \<Rightarrow> stamped list \<Rightarrow> error option \<times> vault" where
  "delete_loop v [] = (None, v)"
| "delete_loop v (e # rest) =
     (case vault_delete v (file' e) of
        Inl err \<Rightarrow> (Some err, v)
      | Inr v' \<Rightarrow> delete_loop v' rest)"

text \<open>
  The steps of \<open>preserveLegacyFiles\<close> before the vault is written to: the name, the path
  and the content of the consolidated file, and the snapshots in sorted order.
\<close>

record plan =
  preservedFileName :: string
  preservedFilePath :: string
  preservedContent :: string
  filesWithTimestamp :: "stamped list"

definition prepare :: "pattern_engine \<Rightarrow> settings \<Rightarrow> tfile \<Rightarrow> vault \<Rightarrow> error + plan" where
  "prepare engine st activeFile v =
     (let baseName = basename activeFile;
          legacyFolderPath = normalizePath (legacyFolder st)
      in (case adapter_exists v legacyFolderPath of
            Inl e \<Rightarrow> Inl StorageFailure
          | Inr ex \<Rightarrow>
              if \<not> ex then Inl ArchiveMissing
              else (case filter_legacy engine baseName legacyFolderPath (getFiles v) of
                      Inl e \<Rightarrow> Inl e
                    | Inr legacyFiles \<Rightarrow>
                        if length legacyFiles = 0 then Inl NoSnapshots
                        else (let sorted = sort_with (compare_stamped (sortOrder st))
                                             (map with_timestamp legacyFiles)
                              in (case content_loop v baseName 0 sorted [] [] of
                                    Inl e \<Rightarrow> Inl e
                                  | Inr (content, timestamps) \<Rightarrow>
                                      (let startTimestamp = first_of timestamps;
                                           endTimestamp = last_of timestamps;
                                           name = baseName @ ''_legacy_'' @ startTimestamp @ ''-''
                                                    @ endTimestamp @ ''.md''
                                       in Inr \<lparr>preservedFileName = name,
                                               preservedFilePath =
                                                 normalizePath (legacyFolderPath @ ''/'' @ name),
                                               preservedContent = content,
                                               filesWithTimestamp = sorted\<rparr>))))))"

text \<open>
  The result is the notice shown to the user: the name of the consolidated file on
  success, the kind of failure otherwise, with the vault as the run has left it.
\<close>

definition preserveLegacyFiles ::
  "pattern_engine \<Rightarrow> settings \<Rightarrow> tfile option \<Rightarrow> vault \<Rightarrow> (error + string) \<times> vault" where
  "preserveLegacyFiles engine st active v =
     (case active of
        None \<Rightarrow> (Inl NoActiveDocument, v)
      | Some activeFile \<Rightarrow>
          (case prepare engine st activeFile v of
             Inl e \<Rightarrow> (Inl e, v)
           | Inr p \<Rightarrow>
               (case vault_create v (preservedFilePath p) (preservedContent p) of
                  Inl e \<Rightarrow> (Inl StorageFailure, v)
                | Inr v1 \<Rightarrow>
                    (case delete_loop v1 (filesWithTimestamp p) of
                       (Some e, v2) \<Rightarrow> (Inl StorageFailure, v2)
                     | (None, v2) \<Rightarrow> (Inr (preservedFileName p), v2)))))"

section \<open>Example vaults\<close>

definition snapshot :: "string \<Rightarrow> string \<Rightarrow> tfile \<times> string" where
  "snapshot name content = (tfile_of_path (''legacy/'' @ name @ ''.md''), content)"

definition draft :: tfile where
  "draft = tfile_of_path ''draft.md''"

definition ascending :: settings where
  "ascending = \<lparr>legacyFolder = ''legacy'', sortOrder = Asc\<rparr>"

definition descending :: settings where
  "descending = \<lparr>legacyFolder = ''legacy'', sortOrder = Desc\<rparr>"

text \<open>A vault with three snapshots of \<open>draft\<close>, listed out of order.\<close>

definition draft_vault :: "string \<Rightarrow> string \<Rightarrow> string \<Rightarrow> vault" where
  "draft_vault c09 c10 c11 =
     \<lparr>folders = [''legacy''],
      files = [(draft, ''now''),
               snapshot ''draft_legacy_20240101100000'' c10,
               snapshot ''draft_legacy_20240101090000'' c09,
               snapshot ''draft_legacy_20240101110000'' c11],
      broken = []\<rparr>"

text \<open>A vault whose archive holds only the snapshots of another document.\<close>

definition other_vault :: vault where
  "other_vault =
     \<lparr>folders = [''legacy''],
      files = [(draft, ''now''), snapshot ''draft2_legacy_20240101100000'' ''ten''],
      broken = []\<rparr>"

text \<open>
  A vault in which the name of the consolidated file is already taken, and the plan of
  \<open>preserveLegacyFiles\<close> for it.
\<close>

definition taken_vault :: vault where
  "taken_vault =
     \<lparr>folders = [''legacy''],
      files = [(draft, ''now''),
               snapshot ''draft_legacy_20240101090000'' ''nine'',
               snapshot ''draft_legacy_20240101090000-20240101090000'' ''old''],
      broken = []\<rparr>"

definition taken_plan :: plan where
  "taken_plan =
     \<lparr>preservedFileName = ''draft_legacy_20240101090000-20240101090000.md'',
      preservedFilePath = ''legacy/draft_legacy_20240101090000-20240101090000.md'',
      preservedContent = header ''draft'' ''20240101090000'' @ ''nine'',
      filesWithTimestamp =
        [\<lparr>file' = fst (snapshot ''draft_legacy_20240101090000'' ''nine''),
          timestamp = ''20240101090000''\<rparr>]\<rparr>"

text \<open>The plan of \<open>preserveLegacyFiles\<close> for \<open>draft_vault\<close> in descending order.\<close>

definition draft_plan :: plan where
  "draft_plan =
     \<lparr>preservedFileName = ''draft_legacy_20240101110000-20240101090000.md'',
      preservedFilePath = ''legacy/draft_legacy_20240101110000-20240101090000.md'',
      preservedContent =
        header ''draft'' ''20240101110000'' @ ''eleven'' @ separator
          @ header ''draft'' ''20240101100000'' @ ''ten'' @ separator
          @ header ''draft'' ''20240101090000'' @ ''nine'',
      filesWithTimestamp =
        [\<lparr>file' = fst (snapshot ''draft_legacy_20240101110000'' ''eleven''),
          timestamp = ''20240101110000''\<rparr>,
         \<lparr>file' = fst (snapshot ''draft_legacy_20240101100000'' ''ten''),
          timestamp = ''20240101100000''\<rparr>,
         \<lparr>file' = fst (snapshot ''draft_legacy_20240101090000'' ''nine''),
          timestamp = ''20240101090000''\<rparr>]\<rparr>"

text \<open>The vault that the consolidation of \<open>draft_vault\<close> in descending order leaves.\<close>

definition consolidated_vault :: "string \<Rightarrow> string \<Rightarrow> string \<Rightarrow> vault" where
  "consolidated_vault c09 c10 c11 =
     \<lparr>folders = [''legacy''],
      files = [(draft, ''now''),
               (tfile_of_path ''legacy/draft_legacy_20240101110000-20240101090000.md'',
                header ''draft'' ''20240101110000'' @ c11 @ separator
                  @ header ''draft'' ''20240101100000'' @ c10 @ separator
                  @ header ''draft'' ''20240101090000'' @ c09)],
      broken = []\<rparr>"

text \<open>
  The vault that the consolidation of \<open>draft_vault\<close> in ascending order leaves.
\<close>

definition consolidated_ascending_vault :: "string \<Rightarrow> string \<Rightarrow> string \<Rightarrow> vault" where
  "consolidated_ascending_vault c09 c10 c11 =
     \<lparr>folders = [''legacy''],
      files = [(draft, ''now''),
               (tfile_of_path ''legacy/draft_legacy_20240101090000-20240101110000.md'',
                header ''draft'' ''20240101090000'' @ c09 @ separator
                  @ header ''draft'' ''20240101100000'' @ c10 @ separator
                  @ header ''draft'' ''20240101110000'' @ c11)],
      broken = []\<rparr>"

section \<open>The consolidated body as the specification describes it\<close>

text \<open>
  The storage name of a snapshot is the base name of its owner, \<open>_legacy_\<close> and its
  timestamp. An entry is a header line \<open># storageName\<close>, a blank line and the content.
  The separator block is a blank line, a horizontal-rule marker on a line of its own
  and a blank line. The body is the first entry, and then for every further entry the
  separator block and the entry. An entry is given as its timestamp and its content.
\<close>

definition storageName :: "string \<Rightarrow> string \<Rightarrow> string" where
  "storageName owner ts = owner @ ''_legacy_'' @ ts"

definition entry_block :: "string \<Rightarrow> string \<times> string \<Rightarrow> string" where
  "entry_block owner e = (''# '' @ storageName owner (fst e) @ [CHR 0x0A]) @ [CHR 0x0A] @ snd e"

definition separator_block :: string where
  "separator_block = [CHR 0x0A] @ (''___'' @ [CHR 0x0A]) @ [CHR 0x0A]"

fun spec_body :: "string \<Rightarrow> (string \<times> string) list \<Rightarrow> string" where
  "spec_body owner [] = []"
| "spec_body owner (e # es) =
     entry_block owner e @ concat (map (\<lambda>e'. separator_block @ entry_block owner e') es)"

section \<open>The timestamp as the specification describes it\<close>

text \<open>
  The pattern \<open>YYYYMMDDHHmmss\<close> in local time: the year on four digits, then month,
  day, hour, minute and second on two digits each, padded with zeros.
\<close>

definition fmt14 :: "date \<Rightarrow> string" where
  "fmt14 now =
     padStart 4 CHR ''0'' (String_int (getFullYear now))
       @ padStart 2 CHR ''0'' (String_nat (getMonth now + 1))
       @ padStart 2 CHR ''0'' (String_nat (getDate now))
       @ padStart 2 CHR ''0'' (String_nat (getHours now))
       @ padStart 2 CHR ''0'' (String_nat (getMinutes now))
       @ padStart 2 CHR ''0'' (String_nat (getSeconds now))"

text \<open>Two times of day on the first of January 2024.\<close>

definition nine_o_clock :: date where
  "nine_o_clock =
     \<lparr>getFullYear = 2024, getMonth = 0, getDate = 1, getHours = 9, getMinutes = 0, getSeconds = 0\<rparr>"

definition noon :: date where
  "noon =
     \<lparr>getFullYear = 2024, getMonth = 0, getDate = 1, getHours = 12, getMinutes = 0, getSeconds = 0\<rparr>"

section \<open>The order of the timestamps as the specification describes it\<close>

text \<open>
  The order of the timestamps as the specification describes it: a timestamp
  \<open>YYYYMMDDHHmmss\<close> read as a number in base ten, so that an earlier instant has a
  smaller value; ascending order puts the smaller value first, descending order the
  larger one.
\<close>

definition timestamp_value :: "string \<Rightarrow> nat" where
  "timestamp_value ts = foldl (\<lambda>n c. 10 * n + ((of_char c :: nat) - 48)) 0 ts"

fun in_order :: "sort_order \<Rightarrow> string \<Rightarrow> string \<Rightarrow> bool" where
  "in_order Asc s t = (timestamp_value s \<le> timestamp_value t)"
| "in_order Desc s t = (timestamp_value t \<le> timestamp_value s)"

section \<open>Splitting a body\<close>






section \<open>Owners without pattern syntax\<close>

text \<open>
  The characters that the pattern language reads as syntax wherever they stand; a
  name without them is read as itself.
\<close>

definition syntax_char :: "char \<Rightarrow> bool" where
  "syntax_char c = (c \<in> set ''^$.*+?()[{|'' \<or> c = CHR 0x5C)"

definition plain :: "string \<Rightarrow> bool" where
  "plain s = list_all (\<lambda>c. \<not> syntax_char c) s"

text \<open>The pattern that matches the characters of a string and then \<open>r\<close>.\<close>

definition literal :: "string \<Rightarrow> regex \<Rightarrow> regex" where
  "literal s r = foldr (\<lambda>c acc. Seq (Chr c) acc) s r"

text \<open>The pattern for fourteen digits at the end of the input.\<close>

definition fourteen_digits :: regex where
  "fourteen_digits = Seq (Repeat (Cls False Digit) 14 (Some 14)) (Seq Eol Empty)"

text \<open>A base name is a snapshot name of an owner: the owner, \<open>_legacy_\<close> and fourteen digits.\<close>

definition snapshot_name :: "string \<Rightarrow> string \<Rightarrow> bool" where
  "snapshot_name owner s =
     (take (length owner) s = owner
      \<and> take 8 (drop (length owner) s) = ''_legacy_''
      \<and> length s = length owner + 22
      \<and> list_all is_digit (drop (length owner + 8) s))"

section \<open>An owner with pattern syntax\<close>

text \<open>
  A document whose base name holds a bar, a vault whose archive holds a file of
  another name, and a vault whose archive holds a snapshot of the document, with the
  vaults that a first and a second consolidation of it leave.
\<close>

definition bar :: tfile where
  "bar = tfile_of_path ''a|b.md''"

definition bar_vault :: vault where
  "bar_vault =
     \<lparr>folders = [''legacy''],
      files = [(bar, ''now''), (tfile_of_path ''legacy/abc.md'', ''letters'')],
      broken = []\<rparr>"

definition bar_snapshot_vault :: vault where
  "bar_snapshot_vault =
     \<lparr>folders = [''legacy''],
      files = [(bar, ''now''), snapshot ''a|b_legacy_20240101090000'' ''nine''],
      broken = []\<rparr>"

definition bar_once :: vault where
  "bar_once =
     \<lparr>folders = [''legacy''],
      files = [(bar, ''now''),
               (tfile_of_path ''legacy/a|b_legacy_20240101090000-20240101090000.md'',
                header ''a|b'' ''20240101090000'' @ ''nine'')],
      broken = []\<rparr>"

definition bar_twice :: vault where
  "bar_twice =
     \<lparr>folders = [''legacy''],
      files = [(bar, ''now''),
               (tfile_of_path ''legacy/a|b_legacy_00000000000000-00000000000000.md'',
                header ''a|b'' ''00000000000000'' @ header ''a|b'' ''20240101090000'' @ ''nine'')],
      broken = []\<rparr>"

text \<open>The vault that the consolidation of \<open>bar_vault\<close> leaves.\<close>

definition bar_letters :: vault where
  "bar_letters =
     \<lparr>folders = [''legacy''],
      files = [(bar, ''now''),
               (tfile_of_path ''legacy/a|b_legacy_00000000000000-00000000000000.md'',
                header ''a|b'' ''00000000000000'' @ ''letters'')],
      broken = []\<rparr>"

section \<open>An owner whose base name is not a pattern\<close>

text \<open>
  A document whose base name is not a pattern, in a vault whose archive folder holds
  no file.
\<close>

definition plus :: tfile where
  "plus = tfile_of_path ''C++.md''"

definition plus_vault :: vault where
  "plus_vault = \<lparr>folders = [''legacy''], files = [(plus, ''now'')], broken = []\<rparr>"

section \<open>The pattern of the timestamp\<close>

text \<open>
  The source of the pattern that extracts the timestamp. The function
  \<open>match_legacy_timestamp\<close> finds a match exactly when this pattern does
  (\<open>test_timestamp_pattern\<close> below).
\<close>

definition timestamp_pattern :: string where
  "timestamp_pattern = ''_legacy_('' @ [CHR 0x5C] @ ''d{14})$''"

section \<open>Properties of the steps\<close>

lemma filter_legacy_subset:
  "filter_legacy engine b dir fs = Inr keep \<Longrightarrow> set keep \<subseteq> set fs"
proof (induction fs arbitrary: keep)
  case Nil
  then show ?case by simp
next
  case (Cons f rest)
  then show ?case
    by (auto simp: Let_def split: sum.splits regexp_error.splits if_splits)
qed

lemma set_insert_sorted: "set (insert_sorted cmp x ys) = insert x (set ys)"
  by (induction ys) auto

lemma set_sort_with: "set (sort_with cmp xs) = set xs"
  by (induction xs) (auto simp: sort_with_def set_insert_sorted)

lemma length_insert_sorted: "length (insert_sorted cmp x ys) = Suc (length ys)"
  by (induction ys) auto

lemma length_sort_with: "length (sort_with cmp xs) = length xs"
  by (induction xs) (auto simp: sort_with_def length_insert_sorted)

lemma file_with_timestamp: "file' (with_timestamp f) = f"
  by (simp add: with_timestamp_def)

lemma prepare_files:
  assumes "prepare engine st a v = Inr p"
  shows "\<exists>legacyFiles.
           filter_legacy engine (basename a) (normalizePath (legacyFolder st)) (getFiles v) = Inr legacyFiles
           \<and> legacyFiles \<noteq> []
           \<and> filesWithTimestamp p =
               sort_with (compare_stamped (sortOrder st)) (map with_timestamp legacyFiles)"
  using assms
  by (auto simp: prepare_def Let_def split: sum.splits if_splits prod.splits)

lemma prepare_snapshots_in_vault:
  assumes "prepare engine st a v = Inr p"
  shows "file' ` set (filesWithTimestamp p) \<subseteq> set (getFiles v)"
proof -
  from prepare_files [OF assms] obtain legacyFiles where
    f: "filter_legacy engine (basename a) (normalizePath (legacyFolder st)) (getFiles v) = Inr legacyFiles"
    and s: "filesWithTimestamp p =
              sort_with (compare_stamped (sortOrder st)) (map with_timestamp legacyFiles)"
    by blast
  have "file' ` set (filesWithTimestamp p) = set legacyFiles"
    by (simp add: s set_sort_with image_image file_with_timestamp)
  with filter_legacy_subset [OF f] show ?thesis
    by simp
qed

lemma content_loop_later:
  assumes "content_loop v b i es pc tss = Inr (pc', tss')" and "0 < i"
  shows "\<exists>cs. map (\<lambda>e. vault_read v (file' e)) es = map Inr cs
           \<and> tss' = tss @ map timestamp es
           \<and> pc' = pc @ concat (map (\<lambda>e'. separator_block @ entry_block b e')
                                   (zip (map timestamp es) cs))"
  using assms
proof (induction es arbitrary: i pc tss)
  case Nil
  then show ?case by simp
next
  case (Cons e rest)
  from Cons.prems obtain c where c: "vault_read v (file' e) = Inr c"
    and r: "content_loop v b (Suc i) rest (pc @ separator @ header b (timestamp e) @ c)
              (tss @ [timestamp e]) = Inr (pc', tss')"
    by (auto split: sum.splits)
  from Cons.IH [OF r] obtain cs where
    cs: "map (\<lambda>e. vault_read v (file' e)) rest = map Inr cs"
    and t: "tss' = (tss @ [timestamp e]) @ map timestamp rest"
    and p: "pc' = (pc @ separator @ header b (timestamp e) @ c)
              @ concat (map (\<lambda>e'. separator_block @ entry_block b e') (zip (map timestamp rest) cs))"
    by auto
  have "map (\<lambda>e. vault_read v (file' e)) (e # rest) = map Inr (c # cs)"
    using c cs by simp
  moreover have "tss' = tss @ map timestamp (e # rest)"
    using t by simp
  moreover have "pc' = pc @ concat (map (\<lambda>e'. separator_block @ entry_block b e')
                                   (zip (map timestamp (e # rest)) (c # cs)))"
    using p by (simp add: separator_def separator_block_def header_def entry_block_def storageName_def)
  ultimately show ?case by blast
qed

lemma content_loop_first:
  assumes "content_loop v b 0 es [] [] = Inr (pc', tss')"
  shows "\<exists>cs. map (\<lambda>e. vault_read v (file' e)) es = map Inr cs
           \<and> tss' = map timestamp es
           \<and> pc' = spec_body b (zip (map timestamp es) cs)"
proof (cases es)
  case Nil
  with assms show ?thesis by simp
next
  case (Cons e rest)
  from assms Cons obtain c where c: "vault_read v (file' e) = Inr c"
    and r: "content_loop v b (Suc 0) rest (header b (timestamp e) @ c) [timestamp e] = Inr (pc', tss')"
    by (auto split: sum.splits)
  from content_loop_later [OF r] obtain cs where
    cs: "map (\<lambda>e. vault_read v (file' e)) rest = map Inr cs"
    and t: "tss' = [timestamp e] @ map timestamp rest"
    and p: "pc' = (header b (timestamp e) @ c)
              @ concat (map (\<lambda>e'. separator_block @ entry_block b e') (zip (map timestamp rest) cs))"
    by auto
  have "map (\<lambda>e. vault_read v (file' e)) es = map Inr (c # cs)"
    using c cs Cons by simp
  moreover have "tss' = map timestamp es"
    using t Cons by simp
  moreover have "pc' = spec_body b (zip (map timestamp es) (c # cs))"
    using p Cons by (simp add: header_def entry_block_def storageName_def)
  ultimately show ?thesis by blast
qed

lemma prepare_content:
  assumes "prepare engine st a v = Inr p"
  shows "\<exists>tss. content_loop v (basename a) 0 (filesWithTimestamp p) [] [] = Inr (preservedContent p, tss)
    \<and> preservedFileName p = basename a @ ''_legacy_'' @ first_of tss @ ''-'' @ last_of tss @ ''.md''
    \<and> preservedFilePath p = normalizePath (normalizePath (legacyFolder st) @ ''/'' @ preservedFileName p)"
  using assms
  by (auto simp: prepare_def Let_def split: sum.splits if_splits prod.splits)

lemma prepare_nonempty:
  assumes "prepare engine st a v = Inr p"
  shows "filesWithTimestamp p \<noteq> []"
proof -
  from prepare_files [OF assms] obtain legacyFiles where
    "legacyFiles \<noteq> []"
    "filesWithTimestamp p = sort_with (compare_stamped (sortOrder st)) (map with_timestamp legacyFiles)"
    by blast
  then have "length (filesWithTimestamp p) \<noteq> 0"
    by (simp add: length_sort_with)
  then show ?thesis by auto
qed

lemma prepare_name:
  assumes "prepare engine st a v = Inr p"
  shows "preservedFileName p =
           basename a @ ''_legacy_'' @ timestamp (hd (filesWithTimestamp p)) @ ''-''
             @ timestamp (last (filesWithTimestamp p)) @ ''.md''"
proof -
  from prepare_content [OF assms] obtain tss where
    l: "content_loop v (basename a) 0 (filesWithTimestamp p) [] [] = Inr (preservedContent p, tss)"
    and n: "preservedFileName p = basename a @ ''_legacy_'' @ first_of tss @ ''-'' @ last_of tss @ ''.md''"
    by blast
  from content_loop_first [OF l] have t: "tss = map timestamp (filesWithTimestamp p)"
    by blast
  from prepare_nonempty [OF assms] obtain e es where "filesWithTimestamp p = e # es"
    by (cases "filesWithTimestamp p") auto
  then have "first_of tss = timestamp (hd (filesWithTimestamp p))"
    and "last_of tss = timestamp (last (filesWithTimestamp p))"
    using t by (simp_all add: first_of_def last_of_def last_map)
  with n show ?thesis by simp
qed

lemma takeWhile_stop: "\<not> P y \<Longrightarrow> takeWhile P (xs @ y # ys) = takeWhile P xs"
  by (induction xs) auto

lemma dropWhile_stop: "\<not> P y \<Longrightarrow> dropWhile P (xs @ y # ys) = dropWhile P xs @ y # ys"
  by (induction xs) auto

lemma takeWhile_all: "c \<notin> set t \<Longrightarrow> takeWhile (\<lambda>x. x \<noteq> c) t = t"
  by (induction t) auto

lemma dropWhile_all: "c \<notin> set t \<Longrightarrow> dropWhile (\<lambda>x. x \<noteq> c) t = []"
  by (induction t) auto

lemma after_last_none: "c \<notin> set t \<Longrightarrow> after_last c t = t"
  by (simp add: after_last_def takeWhile_all)

lemma before_last_none: "c \<notin> set t \<Longrightarrow> before_last c t = []"
  by (simp add: before_last_def dropWhile_all)

lemma after_last_append: "c \<notin> set t \<Longrightarrow> after_last c (s @ c # t) = t"
  by (simp add: after_last_def takeWhile_stop [where xs = "rev t" and y = c] takeWhile_all)

lemma before_last_append: "c \<notin> set t \<Longrightarrow> before_last c (s @ c # t) = s"
  by (simp add: before_last_def dropWhile_stop [where xs = "rev t" and y = c] dropWhile_all)

lemma segments_plain: "s \<noteq> [] \<Longrightarrow> CHR ''/'' \<notin> set s \<Longrightarrow> segments s = [s]"
  by (cases s) (auto simp: takeWhile_all dropWhile_all)

lemma segments_append_sep: "segments (a @ CHR ''/'' # b) = segments a @ segments b"
proof (induction a rule: segments.induct)
  case 1
  show ?case by simp
next
  case (2 c cs)
  show ?case
  proof (cases "c = CHR ''/''")
    case True
    with 2 show ?thesis by simp
  next
    case False
    with 2 show ?thesis
      by (simp add: takeWhile_stop dropWhile_stop)
  qed
qed

lemma segments_shape: "s \<in> set (segments p) \<Longrightarrow> s \<noteq> [] \<and> CHR ''/'' \<notin> set s"
proof (induction p rule: segments.induct)
  case 1
  then show ?case by simp
next
  case (2 c cs)
  then show ?case
    by (auto split: if_splits dest: set_takeWhileD)
qed

lemma segments_join:
  "(\<And>s. s \<in> set ss \<Longrightarrow> s \<noteq> [] \<and> CHR ''/'' \<notin> set s) \<Longrightarrow> segments (join_path ss) = ss"
proof (induction ss rule: join_path.induct)
  case 1
  show ?case by simp
next
  case (2 s)
  then show ?case by (simp add: segments_plain)
next
  case (3 s t ss)
  then have "segments (join_path (t # ss)) = t # ss"
    by simp
  moreover have "segments s = [s]"
    using 3 by (simp add: segments_plain)
  ultimately show ?case
    by (simp add: segments_append_sep del: segments.simps)
qed

lemma join_path_snoc: "ss \<noteq> [] \<Longrightarrow> join_path (ss @ [n]) = join_path ss @ CHR ''/'' # n"
  by (induction ss rule: join_path.induct) auto

lemma normalizePath_child:
  assumes "n \<noteq> []" and "CHR ''/'' \<notin> set n"
  shows "normalizePath (normalizePath x @ ''/'' @ n) =
           (if segments x = [] then n else normalizePath x @ ''/'' @ n)"
proof (cases "segments x = []")
  case True
  then show ?thesis
    using assms by (simp add: normalizePath_def segments_plain)
next
  case False
  have "segments (join_path (segments x)) = segments x"
    by (rule segments_join) (rule segments_shape)
  then have "segments (join_path (segments x) @ CHR ''/'' # n) = segments x @ [n]"
    using assms by (simp add: segments_append_sep segments_plain del: segments.simps)
  with False show ?thesis
    by (simp add: normalizePath_def join_path_snoc)
qed

lemma normalizePath_nonempty: "normalizePath x \<noteq> []"
proof (cases "segments x")
  case Nil
  then show ?thesis by (simp add: normalizePath_def)
next
  case (Cons s ss)
  then have "s \<noteq> []"
    using segments_shape [of s x] by simp
  then have "join_path (s # ss) \<noteq> []"
    by (cases ss) auto
  with Cons show ?thesis by (simp add: normalizePath_def)
qed

lemma tfile_of_child:
  assumes "CHR ''/'' \<notin> set b" and "CHR ''/'' \<notin> set ext" and "CHR ''.'' \<notin> set ext"
  shows "tfile_of_path (normalizePath (normalizePath x @ ''/'' @ b @ ''.'' @ ext)) =
           \<lparr>path = normalizePath (normalizePath x @ ''/'' @ b @ ''.'' @ ext),
            basename = b, extension = ext, parent = Some (normalizePath x)\<rparr>"
proof -
  let ?n = "b @ ''.'' @ ext"
  have n: "?n \<noteq> []" "CHR ''/'' \<notin> set ?n"
    using assms by auto
  have dot: "CHR ''.'' \<in> set ?n"
    by simp
  have b: "before_last CHR ''.'' ?n = b" and e: "after_last CHR ''.'' ?n = ext"
    using assms(3) by (simp_all add: before_last_append after_last_append)
  show ?thesis
  proof (cases "segments x = []")
    case True
    then have p: "normalizePath (normalizePath x @ ''/'' @ ?n) = ?n" and r: "normalizePath x = ''/''"
      using normalizePath_child [OF n, of x] by (simp_all add: normalizePath_def)
    have "after_last CHR ''/'' ?n = ?n" and "before_last CHR ''/'' ?n = []"
      by (rule after_last_none [OF n(2)], rule before_last_none [OF n(2)])
    then show ?thesis
      unfolding p tfile_of_path_def Let_def using dot b e r by simp
  next
    case False
    then have p: "normalizePath (normalizePath x @ ''/'' @ ?n) = normalizePath x @ CHR ''/'' # ?n"
      using normalizePath_child [OF n, of x] by simp
    have "after_last CHR ''/'' (normalizePath x @ CHR ''/'' # ?n) = ?n"
      and "before_last CHR ''/'' (normalizePath x @ CHR ''/'' # ?n) = normalizePath x"
      by (rule after_last_append [OF n(2)], rule before_last_append [OF n(2)])
    then show ?thesis
      unfolding p tfile_of_path_def Let_def using dot b e normalizePath_nonempty [of x] by simp
  qed
qed

lemma is_digit_not_sep: "is_digit c \<Longrightarrow> c \<noteq> CHR ''/''"
  by (auto simp: is_digit_def)

lemma match_legacy_timestamp_digits:
  "match_legacy_timestamp s = Some t \<Longrightarrow> length t = 14 \<and> list_all is_digit t"
  by (auto simp: match_legacy_timestamp_def Let_def split: if_splits)

lemma timestamp_digits:
  "length (timestamp (with_timestamp f)) = 14 \<and> list_all is_digit (timestamp (with_timestamp f))"
  by (auto simp: with_timestamp_def is_digit_def split: option.splits
      dest: match_legacy_timestamp_digits)

lemma digits_no_sep: "list_all is_digit t \<Longrightarrow> CHR ''/'' \<notin> set t"
  by (auto simp: list_all_iff dest: is_digit_not_sep)

lemma prepare_timestamps:
  assumes "prepare engine st a v = Inr p" and "e \<in> set (filesWithTimestamp p)"
  shows "length (timestamp e) = 14 \<and> list_all is_digit (timestamp e)"
proof -
  from prepare_files [OF assms(1)] obtain legacyFiles where
    "filesWithTimestamp p = sort_with (compare_stamped (sortOrder st)) (map with_timestamp legacyFiles)"
    by blast
  with assms(2) obtain f where "e = with_timestamp f"
    by (auto simp: set_sort_with)
  then show ?thesis
    using timestamp_digits by simp
qed

lemma vault_delete_files:
  "vault_delete v f = Inr v' \<Longrightarrow>
     v' = v\<lparr>files := filter (\<lambda>fc. path (fst fc) \<noteq> path f) (files v)\<rparr>"
  by (auto simp: vault_delete_def case_prod_unfold split: if_splits)

lemma delete_loop_files:
  "delete_loop v es = (None, v') \<Longrightarrow>
     v' = v\<lparr>files := filter (\<lambda>fc. path (fst fc) \<notin> path ` file' ` set es) (files v)\<rparr>"
proof (induction es arbitrary: v)
  case Nil
  then show ?case by simp
next
  case (Cons e rest)
  from Cons.prems obtain v1 where d: "vault_delete v (file' e) = Inr v1"
    and r: "delete_loop v1 rest = (None, v')"
    by (auto split: sum.splits)
  have v1: "v1 = v\<lparr>files := filter (\<lambda>fc. path (fst fc) \<noteq> path (file' e)) (files v)\<rparr>"
    by (rule vault_delete_files [OF d])
  have "v' = v1\<lparr>files := filter (\<lambda>fc. path (fst fc) \<notin> path ` file' ` set rest) (files v1)\<rparr>"
    by (rule Cons.IH [OF r])
  then show ?case
    unfolding v1 by (simp add: conj_commute)
qed

lemma localeCompare_flip: "localeCompare b a = - localeCompare a b"
  by (induction a b rule: localeCompare.induct) auto

lemma localeCompare_Cons:
  "localeCompare (x # xs) (y # ys) \<le> 0 \<longleftrightarrow>
     (of_char x :: nat) < of_char y \<or> ((of_char x :: nat) = of_char y \<and> localeCompare xs ys \<le> 0)"
  by auto

lemma localeCompare_trans:
  "localeCompare a b \<le> 0 \<Longrightarrow> localeCompare b c \<le> 0 \<Longrightarrow> localeCompare a c \<le> 0"
proof (induction a arbitrary: b c)
  case Nil
  then show ?case by (cases c) simp_all
next
  case (Cons x xs)
  from Cons.prems(1) obtain y ys where b: "b = y # ys"
    by (cases b) simp_all
  from Cons.prems(2) b obtain z zs where c: "c = z # zs"
    by (cases c) simp_all
  from Cons.prems have 1: "(of_char x :: nat) < of_char y \<or> ((of_char x :: nat) = of_char y \<and> localeCompare xs ys \<le> 0)"
    and 2: "(of_char y :: nat) < of_char z \<or> ((of_char y :: nat) = of_char z \<and> localeCompare ys zs \<le> 0)"
    unfolding b c localeCompare_Cons by blast+
  have "(of_char x :: nat) < of_char z \<or> ((of_char x :: nat) = of_char z \<and> localeCompare xs zs \<le> 0)"
    using 1 2 Cons.IH [of ys zs] by (metis less_trans)
  then show ?case
    unfolding c localeCompare_Cons .
qed

lemma compare_stamped_total:
  "\<not> compare_stamped order x y \<le> 0 \<Longrightarrow> compare_stamped order y x \<le> 0"
  using localeCompare_flip [of "timestamp x" "timestamp y"]
  by (auto simp: compare_stamped_def)

lemma compare_stamped_trans:
  "compare_stamped order x y \<le> 0 \<Longrightarrow> compare_stamped order y z \<le> 0 \<Longrightarrow>
     compare_stamped order x z \<le> 0"
  by (auto simp: compare_stamped_def intro: localeCompare_trans split: if_splits)

lemma sorted_insert_sorted:
  assumes "sorted_wrt (\<lambda>x y. compare_stamped order x y \<le> 0) ys"
  shows "sorted_wrt (\<lambda>x y. compare_stamped order x y \<le> 0) (insert_sorted (compare_stamped order) x ys)"
  using assms
proof (induction ys)
  case Nil
  then show ?case by simp
next
  case (Cons y ys)
  show ?case
  proof (cases "compare_stamped order x y \<le> 0")
    case True
    with Cons.prems show ?thesis
      by (auto intro: compare_stamped_trans)
  next
    case False
    then have "compare_stamped order y x \<le> 0"
      by (rule compare_stamped_total)
    with False Cons show ?thesis
      by (auto simp: set_insert_sorted)
  qed
qed

lemma sorted_sort_with:
  "sorted_wrt (\<lambda>x y. compare_stamped order x y \<le> 0) (sort_with (compare_stamped order) xs)"
proof (induction xs)
  case Nil
  show ?case by (simp add: sort_with_def)
next
  case (Cons x xs)
  then show ?case
    using sorted_insert_sorted [of order "sort_with (compare_stamped order) xs" x]
    by (simp add: sort_with_def)
qed

lemma is_digit_digit_char: "d < 10 \<Longrightarrow> is_digit (digit_char d)"
  by (simp add: is_digit_def digit_char_def)

lemma is_digit_zero: "is_digit CHR ''0''"
  by (simp add: is_digit_def)

lemma String_nat_small: "n < 10 \<Longrightarrow> String_nat n = [digit_char n]"
  by (subst String_nat.simps) simp

lemma String_nat_large:
  "10 \<le> n \<Longrightarrow> String_nat n = String_nat (n div 10) @ [digit_char (n mod 10)]"
  by (subst String_nat.simps) simp

lemma String_nat_digits: "list_all is_digit (String_nat n)"
proof (induction n rule: String_nat.induct)
  case (1 n)
  show ?case
  proof (cases "n < 10")
    case True
    then show ?thesis
      by (simp add: String_nat_small is_digit_digit_char)
  next
    case False
    with 1 show ?thesis
      by (simp add: String_nat_large is_digit_digit_char)
  qed
qed

lemma length_String_nat_1: "n < 10 \<Longrightarrow> length (String_nat n) = 1"
  by (simp add: String_nat_small)

lemma length_String_nat_step:
  "10 \<le> n \<Longrightarrow> length (String_nat n) = Suc (length (String_nat (n div 10)))"
  by (subst String_nat.simps) simp

lemma length_String_nat_2:
  assumes "10 \<le> n" and "n < 100"
  shows "length (String_nat n) = 2"
proof -
  have "n div 10 < 10"
    using assms by simp
  then have "length (String_nat (n div 10)) = 1"
    by (rule length_String_nat_1)
  then show ?thesis
    using length_String_nat_step [OF assms(1)] by simp
qed

lemma length_String_nat_3:
  assumes "100 \<le> n" and "n < 1000"
  shows "length (String_nat n) = 3"
proof -
  have "10 \<le> n div 10" and "n div 10 < 100"
    using assms by simp_all
  then have "length (String_nat (n div 10)) = 2"
    by (rule length_String_nat_2)
  moreover have "10 \<le> n"
    using assms by simp
  ultimately show ?thesis
    using length_String_nat_step [of n] by simp
qed

lemma length_String_nat_4:
  assumes "1000 \<le> n" and "n < 10000"
  shows "length (String_nat n) = 4"
proof -
  have "100 \<le> n div 10" and "n div 10 < 1000"
    using assms by simp_all
  then have "length (String_nat (n div 10)) = 3"
    by (rule length_String_nat_3)
  moreover have "10 \<le> n"
    using assms by simp
  ultimately show ?thesis
    using length_String_nat_step [of n] by simp
qed

lemma two_digits:
  assumes "n < 100"
  shows "length (padStart 2 CHR ''0'' (String_nat n)) = 2"
    and "list_all is_digit (padStart 2 CHR ''0'' (String_nat n))"
proof -
  have "length (String_nat n) = 1 \<or> length (String_nat n) = 2"
    using assms length_String_nat_1 [of n] length_String_nat_2 [of n] by (cases "n < 10") auto
  then show "length (padStart 2 CHR ''0'' (String_nat n)) = 2"
    by (auto simp: padStart_def)
  show "list_all is_digit (padStart 2 CHR ''0'' (String_nat n))"
    using String_nat_digits [of n] by (auto simp: padStart_def is_digit_zero list_all_iff)
qed

lemma four_digits:
  assumes "1000 \<le> y" and "y \<le> 9999"
  shows "String_int y = padStart 4 CHR ''0'' (String_int y)"
    and "length (String_int y) = 4"
    and "list_all is_digit (String_int y)"
proof -
  have y: "String_int y = String_nat (nat y)"
    using assms by (simp add: String_int_def)
  show l: "length (String_int y) = 4"
    unfolding y using assms by (intro length_String_nat_4) auto
  then show "String_int y = padStart 4 CHR ''0'' (String_int y)"
    by (simp add: padStart_def)
  show "list_all is_digit (String_int y)"
    unfolding y by (rule String_nat_digits)
qed

lemma getTimestamp_fmt14:
  assumes "valid_date now"
  shows "getTimestamp now = fmt14 now"
    and "length (fmt14 now) = 14"
    and "list_all is_digit (fmt14 now)"
proof -
  from assms have y: "1000 \<le> getFullYear now" "getFullYear now \<le> 9999"
    and r: "getMonth now + 1 < 100" "getDate now < 100" "getHours now < 100"
      "getMinutes now < 100" "getSeconds now < 100"
    by (auto simp: valid_date_def)
  show "getTimestamp now = fmt14 now"
    using four_digits(1) [OF y] by (simp add: getTimestamp_def fmt14_def Let_def)
  have "padStart 4 CHR ''0'' (String_int (getFullYear now)) = String_int (getFullYear now)"
    using four_digits(1) [OF y] by simp
  then show "length (fmt14 now) = 14" and "list_all is_digit (fmt14 now)"
    using four_digits(2,3) [OF y] r
    by (simp_all add: fmt14_def two_digits)
qed






lemma spec_body_blocks:
  "es \<noteq> [] \<Longrightarrow>
     spec_body owner es =
       entry_block owner (hd es) @ concat (map (\<lambda>b. separator_block @ b) (map (entry_block owner) (tl es)))"
  by (cases es) (simp_all add: comp_def)


lemma consolidate_effect:
  assumes "preserveLegacyFiles engine st (Some a) v = (Inr name, v')"
    and "CHR ''/'' \<notin> set (basename a)"
  shows "\<exists>p legacyFiles.
           prepare engine st a v = Inr p
           \<and> name = preservedFileName p
           \<and> filter_legacy engine (basename a) (normalizePath (legacyFolder st)) (getFiles v) = Inr legacyFiles
           \<and> legacyFiles \<noteq> []
           \<and> file' ` set (filesWithTimestamp p) = set legacyFiles
           \<and> preservedFilePath p \<notin> set (paths v)
           \<and> tfile_of_path (preservedFilePath p) =
               \<lparr>path = preservedFilePath p,
                basename = basename a @ ''_legacy_'' @ timestamp (hd (filesWithTimestamp p)) @ ''-''
                             @ timestamp (last (filesWithTimestamp p)),
                extension = ''md'',
                parent = Some (normalizePath (legacyFolder st))\<rparr>
           \<and> v' = v\<lparr>files := filter (\<lambda>fc. path (fst fc) \<notin> path ` set legacyFiles) (files v)
                                 @ [(tfile_of_path (preservedFilePath p), preservedContent p)]\<rparr>"
proof -
  from assms(1) obtain p v1 where p: "prepare engine st a v = Inr p"
    and c: "vault_create v (preservedFilePath p) (preservedContent p) = Inr v1"
    and d: "delete_loop v1 (filesWithTimestamp p) = (None, v')"
    and n: "name = preservedFileName p"
    by (auto simp: preserveLegacyFiles_def split: sum.splits prod.splits option.splits)
  from prepare_files [OF p] obtain legacyFiles where
    f: "filter_legacy engine (basename a) (normalizePath (legacyFolder st)) (getFiles v) = Inr legacyFiles"
    and ne: "legacyFiles \<noteq> []"
    and s: "filesWithTimestamp p =
              sort_with (compare_stamped (sortOrder st)) (map with_timestamp legacyFiles)"
    by blast
  have fs: "file' ` set (filesWithTimestamp p) = set legacyFiles"
    by (simp add: s set_sort_with image_image file_with_timestamp)
  let ?new = "tfile_of_path (preservedFilePath p)"
  from c have fresh: "preservedFilePath p \<notin> set (paths v)"
    and v1: "v1 = v\<lparr>files := files v @ [(?new, preservedContent p)]\<rparr>"
    by (auto simp: vault_create_def split: if_splits)
  let ?b = "basename a @ ''_legacy_'' @ timestamp (hd (filesWithTimestamp p)) @ ''-''
              @ timestamp (last (filesWithTimestamp p))"
  have name: "preservedFileName p = ?b @ ''.md''"
    using prepare_name [OF p] by simp
  have "filesWithTimestamp p \<noteq> []"
    by (rule prepare_nonempty [OF p])
  then have "hd (filesWithTimestamp p) \<in> set (filesWithTimestamp p)"
    and "last (filesWithTimestamp p) \<in> set (filesWithTimestamp p)"
    by simp_all
  then have "CHR ''/'' \<notin> set (timestamp (hd (filesWithTimestamp p)))"
    and "CHR ''/'' \<notin> set (timestamp (last (filesWithTimestamp p)))"
    using prepare_timestamps [OF p] digits_no_sep by blast+
  then have b: "CHR ''/'' \<notin> set ?b"
    using assms(2) by simp
  from prepare_content [OF p] name
  have pp: "preservedFilePath p =
              normalizePath (normalizePath (legacyFolder st) @ ''/'' @ ?b @ ''.'' @ ''md'')"
    by auto
  have new: "?new = \<lparr>path = preservedFilePath p, basename = ?b, extension = ''md'',
                      parent = Some (normalizePath (legacyFolder st))\<rparr>"
    unfolding pp by (rule tfile_of_child [OF b]) simp_all
  have pn: "path ?new = preservedFilePath p"
    by (simp add: tfile_of_path_def Let_def)
  have sub: "path ` set legacyFiles \<subseteq> set (paths v)"
    using filter_legacy_subset [OF f] by (auto simp: paths_def)
  with fresh have keep: "path ?new \<notin> path ` set legacyFiles"
    using pn by auto
  from delete_loop_files [OF d] have
    "v' = v1\<lparr>files := filter (\<lambda>fc. path (fst fc) \<notin> path ` set legacyFiles) (files v1)\<rparr>"
    by (simp add: fs)
  with keep have "v' = v\<lparr>files := filter (\<lambda>fc. path (fst fc) \<notin> path ` set legacyFiles) (files v)
                                 @ [(?new, preservedContent p)]\<rparr>"
    by (simp add: v1)
  with p n f ne fs fresh new show ?thesis
    by blast
qed

lemma prepare_body:
  assumes "prepare engine st a v = Inr p"
  shows "\<exists>contents.
           map (\<lambda>e. vault_read v (file' e)) (filesWithTimestamp p) = map Inr contents
           \<and> preservedContent p =
               spec_body (basename a) (zip (map timestamp (filesWithTimestamp p)) contents)"
proof -
  from prepare_content [OF assms] obtain tss where
    "content_loop v (basename a) 0 (filesWithTimestamp p) [] [] = Inr (preservedContent p, tss)"
    by blast
  from content_loop_first [OF this] show ?thesis
    by blast
qed

lemma next_token_plain: "\<not> syntax_char c \<Longrightarrow> next_token c cs = Inr (TChr c, cs)"
  by (simp add: next_token_def syntax_char_def)

lemma lex_plain:
  assumes "plain b" and "lex rest = Inr ts"
  shows "lex (b @ rest) = Inr (map TChr b @ ts)"
  using assms(1)
proof (induction b)
  case Nil
  show ?case by (simp add: assms(2))
next
  case (Cons c cs)
  then have "\<not> syntax_char c" and "plain cs"
    by (simp_all add: plain_def)
  then show ?case
    using Cons.IH by (simp add: next_token_plain)
qed

lemma lex_suffix:
  "lex (''_legacy_'' @ [CHR 0x5C] @ ''d{14}$'') =
     Inr (map TChr ''_legacy_'' @ [TCls False Digit, TQuant 14 (Some 14), TEol])"
  by code_simp

lemma lex_legacy_pattern:
  assumes "plain b"
  shows "lex (legacy_pattern b) =
           Inr (TBol # map TChr b @ map TChr ''_legacy_'' @ [TCls False Digit, TQuant 14 (Some 14), TEol])"
proof -
  have "lex (b @ ''_legacy_'' @ [CHR 0x5C] @ ''d{14}$'') =
          Inr (map TChr b @ map TChr ''_legacy_'' @ [TCls False Digit, TQuant 14 (Some 14), TEol])"
    by (rule lex_plain [OF assms lex_suffix])
  moreover have "next_token CHR ''^'' cs = Inr (TBol, cs)" for cs
    by (simp add: next_token_def)
  ultimately show ?thesis
    by (simp add: legacy_pattern_def)
qed

lemma parse_chars:
  "parse fr st (map TChr b @ ts) = parse (fst fr, rev (map (\<lambda>c. (Chr c, True)) b) @ snd fr) st ts"
proof (induction b arbitrary: fr)
  case Nil
  show ?case by simp
next
  case (Cons c cs)
  show ?case
    by (simp add: Cons.IH)
qed

lemma seq_of_chars:
  "foldl (\<lambda>acc t. Seq (fst t) acc) r (rev (map (\<lambda>c. (Chr c, True)) b)) = literal b r"
  by (induction b arbitrary: r) (simp_all add: literal_def)

lemma RegExp_legacy_pattern:
  assumes "plain b"
  shows "RegExp (legacy_pattern b) = Inr (Seq Bol (literal b (literal ''_legacy_'' fourteen_digits)))"
proof -
  let ?g = "\<lambda>c. (Chr c, True)"
  have "parse ([], []) [] (TBol # map TChr b @ map TChr ''_legacy_''
          @ [TCls False Digit, TQuant 14 (Some 14), TEol])
        = parse ([], rev (map ?g b) @ [(Bol, False)]) []
            (map TChr ''_legacy_'' @ [TCls False Digit, TQuant 14 (Some 14), TEol])"
    using parse_chars [of "([], [(Bol, False)])" "[]" b] by simp
  also have "\<dots> = parse ([], rev (map ?g ''_legacy_'') @ rev (map ?g b) @ [(Bol, False)]) []
                      [TCls False Digit, TQuant 14 (Some 14), TEol]"
    using parse_chars [of "([], rev (map ?g b) @ [(Bol, False)])" "[]" "''_legacy_''"] by simp
  also have "\<dots> = Inr (seq_of ((Eol, False) # (Repeat (Cls False Digit) 14 (Some 14), False)
                      # rev (map ?g ''_legacy_'') @ rev (map ?g b) @ [(Bol, False)]))"
    by (simp add: close_frame_def)
  also have "seq_of ((Eol, False) # (Repeat (Cls False Digit) 14 (Some 14), False)
                      # rev (map ?g ''_legacy_'') @ rev (map ?g b) @ [(Bol, False)])
             = Seq Bol (literal b (literal ''_legacy_'' fourteen_digits))"
    unfolding seq_of_def fourteen_digits_def
    by (simp only: foldl_Cons foldl_append foldl_Nil seq_of_chars fst_conv)
  finally show ?thesis
    using lex_legacy_pattern [OF assms] by (simp add: RegExp_def)
qed

lemma one_char_Nil: "one_char P [] = []"
  by (simp add: one_char_def)

lemma one_char_Cons: "one_char P (x # xs) = (if P x then [xs] else [])"
  by (simp add: one_char_def)

lemma ends_literal:
  "ends (literal b r) n t = (if take (length b) t = b then ends r n (drop (length b) t) else [])"
proof (induction b arbitrary: t)
  case Nil
  show ?case by (simp add: literal_def)
next
  case (Cons c cs)
  have l: "literal (c # cs) r = Seq (Chr c) (literal cs r)"
    by (simp add: literal_def)
  show ?case
  proof (cases t)
    case Nil
    then show ?thesis by (simp add: l one_char_Nil)
  next
    case (Cons x xs)
    then show ?thesis
      by (simp add: l one_char_Cons Cons.IH)
  qed
qed

lemma steps_empty: "steps k f [] = []"
  by (induction k) simp_all

lemma steps_one_char:
  "steps k (one_char P) [t] = (if k \<le> length t \<and> list_all P (take k t) then [drop k t] else [])"
proof (induction k arbitrary: t)
  case 0
  show ?case by simp
next
  case (Suc k)
  show ?case
  proof (cases t)
    case Nil
    then show ?thesis by (simp add: one_char_Nil steps_empty)
  next
    case (Cons x xs)
    then show ?thesis
      by (simp add: one_char_Cons steps_empty Suc.IH)
  qed
qed

lemma ends_fourteen_digits:
  "ends fourteen_digits n t = (if length t = 14 \<and> list_all is_digit t then [[]] else [])"
proof -
  have "ends (Repeat (Cls False Digit) 14 (Some 14)) n t
          = (if 14 \<le> length t \<and> list_all is_digit (take 14 t) then [drop 14 t] else [])"
    using steps_one_char [of 14 "\<lambda>x. in_class Digit x \<noteq> False" t] by simp
  then show ?thesis
    by (auto simp: fourteen_digits_def)
qed

lemma tails_length: "t \<in> set (tails s) \<Longrightarrow> length t \<le> length s \<and> (length t = length s \<longrightarrow> t = s)"
  by (induction s) auto

lemma test_anchored:
  "test (Seq Bol r) s \<longleftrightarrow> ends r (length s) s \<noteq> []"
proof -
  have "test (Seq Bol r) s \<longleftrightarrow> (\<exists>t \<in> set (tails s). length t = length s \<and> ends r (length s) t \<noteq> [])"
    by (auto simp: test_def list_ex_iff)
  also have "\<dots> \<longleftrightarrow> ends r (length s) s \<noteq> []"
  proof
    assume "\<exists>t \<in> set (tails s). length t = length s \<and> ends r (length s) t \<noteq> []"
    then obtain t where "t \<in> set (tails s)" "length t = length s" "ends r (length s) t \<noteq> []"
      by blast
    with tails_length [of t s] show "ends r (length s) s \<noteq> []"
      by auto
  next
    assume "ends r (length s) s \<noteq> []"
    moreover have "s \<in> set (tails s)"
      by (cases s) simp_all
    ultimately show "\<exists>t \<in> set (tails s). length t = length s \<and> ends r (length s) t \<noteq> []"
      by blast
  qed
  finally show ?thesis .
qed

lemma length_legacy: "length ''_legacy_'' = 8"
  by simp

lemma nested_if:
  "((if A then (if B then (if C then [x] else []) else []) else []) \<noteq> []) = (A \<and> B \<and> C)"
  by simp

lemma test_legacy_pattern:
  "test (Seq Bol (literal b (literal ''_legacy_'' fourteen_digits))) s \<longleftrightarrow> snapshot_name b s"
proof -
  have 1: "length (drop (length b + 8) s) = 14 \<longleftrightarrow> length s = length b + 22"
    by auto
  have 2: "drop 8 (drop (length b) s) = drop (length b + 8) s"
    by (simp add: add.commute)
  have "ends (literal b (literal ''_legacy_'' fourteen_digits)) (length s) s \<noteq> [] \<longleftrightarrow>
          take (length b) s = b \<and> take 8 (drop (length b) s) = ''_legacy_''
          \<and> length (drop 8 (drop (length b) s)) = 14
          \<and> list_all is_digit (drop 8 (drop (length b) s))"
    unfolding ends_literal ends_fourteen_digits length_legacy by (rule nested_if)
  then show ?thesis
    unfolding test_anchored snapshot_name_def 2 1 by blast
qed

lemma plain_pattern:
  assumes "plain b"
  shows "\<exists>r. RegExp (legacy_pattern b) = Inr r \<and> (\<forall>s. test r s = snapshot_name b s)"
  using RegExp_legacy_pattern [OF assms] test_legacy_pattern by blast

lemma matchesPattern_plain:
  "plain owner \<Longrightarrow> matchesPattern RegExp_test owner name = Inr (snapshot_name owner name)"
  by (simp add: matchesPattern_def RegExp_test_def RegExp_legacy_pattern test_legacy_pattern)

lemma thirteen_digits_rejected:
  assumes "plain owner"
  shows "matchesPattern RegExp_test owner ''note_legacy_2024010100000'' = Inr False"
proof -
  have "\<not> snapshot_name owner ''note_legacy_2024010100000''"
  proof
    assume s: "snapshot_name owner ''note_legacy_2024010100000''"
    then have "length owner = 3"
      by (simp add: snapshot_name_def)
    with s show False
      by (simp add: snapshot_name_def)
  qed
  then show ?thesis
    by (simp add: matchesPattern_plain [OF assms])
qed

lemma filter_legacy_filter:
  assumes "\<And>name. matchesPattern engine b name = Inr (ok name)"
  shows "filter_legacy engine b dir fs =
           Inr (filter (\<lambda>f. (case parent f of Some p \<Rightarrow> normalizePath p | None \<Rightarrow> []) = dir
                              \<and> ok (basename f)) fs)"
  by (induction fs) (simp_all add: assms Let_def)

lemma snapshot_name_parts:
  assumes "snapshot_name b s"
  shows "s = b @ ''_legacy_'' @ drop (length b + 8) s"
    and "length (drop (length b + 8) s) = 14"
    and "list_all is_digit (drop (length b + 8) s)"
proof -
  from assms have 1: "take (length b) s = b" and 2: "take 8 (drop (length b) s) = ''_legacy_''"
    and 3: "length s = length b + 22" and 4: "list_all is_digit (drop (length b + 8) s)"
    by (simp_all add: snapshot_name_def)
  have "drop (length b) s = take 8 (drop (length b) s) @ drop 8 (drop (length b) s)"
    by (rule append_take_drop_id [symmetric])
  moreover have "s = take (length b) s @ drop (length b) s"
    by (rule append_take_drop_id [symmetric])
  ultimately have "s = take (length b) s @ take 8 (drop (length b) s) @ drop 8 (drop (length b) s)"
    by metis
  then show "s = b @ ''_legacy_'' @ drop (length b + 8) s"
    unfolding 1 2 by (simp add: add.commute)
  show "length (drop (length b + 8) s) = 14"
    using 3 by simp
  show "list_all is_digit (drop (length b + 8) s)"
    by (rule 4)
qed

lemma match_legacy_timestamp_name:
  assumes "length ds = 14" and "list_all is_digit ds"
  shows "match_legacy_timestamp (b @ ''_legacy_'' @ ds) = Some ds"
proof -
  let ?s = "b @ ''_legacy_'' @ ds"
  have n: "length ?s = length b + 22"
    using assms(1) by simp
  have "drop (length ?s - 22) ?s = ''_legacy_'' @ ds"
    unfolding n by simp
  moreover have "drop (length ?s - 14) ?s = ds"
    unfolding n by simp
  ultimately show ?thesis
    using assms n by (simp add: match_legacy_timestamp_def Let_def)
qed

lemma plain_timestamps:
  assumes "plain (basename a)" and "prepare RegExp_test st a v = Inr p" and "e \<in> set (filesWithTimestamp p)"
  shows "match_legacy_timestamp (basename (file' e)) = Some (timestamp e)
         \<and> basename (file' e) = storageName (basename a) (timestamp e)"
proof -
  from prepare_files [OF assms(2)] obtain legacyFiles where
    f: "filter_legacy RegExp_test (basename a) (normalizePath (legacyFolder st)) (getFiles v) = Inr legacyFiles"
    and s: "filesWithTimestamp p =
              sort_with (compare_stamped (sortOrder st)) (map with_timestamp legacyFiles)"
    by blast
  from assms(3) obtain g where g: "g \<in> set legacyFiles" and e: "e = with_timestamp g"
    by (auto simp: s set_sort_with)
  have "legacyFiles = filter (\<lambda>f. (case parent f of Some p \<Rightarrow> normalizePath p | None \<Rightarrow> [])
                                     = normalizePath (legacyFolder st)
                                   \<and> snapshot_name (basename a) (basename f)) (getFiles v)"
    using f filter_legacy_filter [of RegExp_test "basename a" "snapshot_name (basename a)"]
      matchesPattern_plain [OF assms(1)] by simp
  with g have n: "snapshot_name (basename a) (basename g)"
    by simp
  let ?ds = "drop (length (basename a) + 8) (basename g)"
  have name: "basename g = basename a @ ''_legacy_'' @ ?ds"
    by (rule snapshot_name_parts(1) [OF n])
  have "match_legacy_timestamp (basename a @ ''_legacy_'' @ ?ds) = Some ?ds"
    by (rule match_legacy_timestamp_name [OF snapshot_name_parts(2,3) [OF n]])
  then have m: "match_legacy_timestamp (basename g) = Some ?ds"
    using name by simp
  then have "timestamp e = ?ds"
    by (simp add: e with_timestamp_def)
  with m name show ?thesis
    by (simp add: e with_timestamp_def storageName_def)
qed

lemma record_name_rejected:
  assumes "plain owner" and "length start = 14"
  shows "matchesPattern RegExp_test owner (storageName owner start @ ''-'' @ end') = Inr False"
proof -
  have "\<not> snapshot_name owner (storageName owner start @ ''-'' @ end')"
    using assms(2) by (simp add: snapshot_name_def storageName_def)
  then show ?thesis
    by (simp add: matchesPattern_plain [OF assms(1)])
qed

lemma plain_consolidate_again:
  assumes "plain (basename a)" and "CHR ''/'' \<notin> set (basename a)"
    and "preserveLegacyFiles RegExp_test st (Some a) v = (Inr name, v')"
  shows "filter_legacy RegExp_test (basename a) (normalizePath (legacyFolder st)) (getFiles v') = Inr []
         \<and> (\<exists>e. preserveLegacyFiles RegExp_test st (Some a) v' = (Inl e, v'))"
proof -
  let ?dir = "normalizePath (legacyFolder st)"
  let ?P = "\<lambda>f. (case parent f of Some p \<Rightarrow> normalizePath p | None \<Rightarrow> []) = ?dir
                 \<and> snapshot_name (basename a) (basename f)"
  have flt: "filter_legacy RegExp_test (basename a) ?dir fs = Inr (filter ?P fs)" for fs
    by (rule filter_legacy_filter) (rule matchesPattern_plain [OF assms(1)])
  from consolidate_effect [OF assms(3,2)] obtain p legacyFiles where
    p: "prepare RegExp_test st a v = Inr p"
    and f: "filter_legacy RegExp_test (basename a) ?dir (getFiles v) = Inr legacyFiles"
    and new: "tfile_of_path (preservedFilePath p) =
               \<lparr>path = preservedFilePath p,
                basename = basename a @ ''_legacy_'' @ timestamp (hd (filesWithTimestamp p)) @ ''-''
                             @ timestamp (last (filesWithTimestamp p)),
                extension = ''md'',
                parent = Some ?dir\<rparr>"
    and v': "v' = v\<lparr>files := filter (\<lambda>fc. path (fst fc) \<notin> path ` set legacyFiles) (files v)
                                 @ [(tfile_of_path (preservedFilePath p), preservedContent p)]\<rparr>"
    by blast
  let ?new = "tfile_of_path (preservedFilePath p)"
  have lf: "legacyFiles = filter ?P (getFiles v)"
    using f flt by simp
  have old: "\<not> ?P g" if g: "g \<in> set (getFiles v)" and q: "path g \<notin> path ` set legacyFiles" for g
  proof
    assume "?P g"
    with g have "g \<in> set legacyFiles"
      by (simp add: lf)
    with q show False
      by simp
  qed
  have "filesWithTimestamp p \<noteq> []"
    by (rule prepare_nonempty [OF p])
  then have "hd (filesWithTimestamp p) \<in> set (filesWithTimestamp p)"
    by simp
  then have "length (timestamp (hd (filesWithTimestamp p))) = 14"
    using prepare_timestamps [OF p] by blast
  then have "\<not> snapshot_name (basename a) (basename ?new)"
    unfolding new by (simp add: snapshot_name_def)
  then have fresh: "\<not> ?P ?new"
    by simp
  have gf: "getFiles v' = map fst (filter (\<lambda>fc. path (fst fc) \<notin> path ` set legacyFiles) (files v)) @ [?new]"
    by (simp add: v' getFiles_def)
  have "filter ?P (map fst (filter (\<lambda>fc. path (fst fc) \<notin> path ` set legacyFiles) (files v))) = []"
  proof -
    have "\<not> ?P g" if "g \<in> set (map fst (filter (\<lambda>fc. path (fst fc) \<notin> path ` set legacyFiles) (files v)))" for g
    proof -
      from that have "g \<in> set (getFiles v)" and "path g \<notin> path ` set legacyFiles"
        by (auto simp: getFiles_def)
      then show ?thesis
        by (rule old)
    qed
    then show ?thesis
      by (simp only: filter_empty_conv) blast
  qed
  with fresh have "filter ?P (getFiles v') = []"
    unfolding gf by simp
  then have none: "filter_legacy RegExp_test (basename a) ?dir (getFiles v') = Inr []"
    by (simp add: flt)
  have "\<exists>e. prepare RegExp_test st a v' = Inl e"
    using none by (auto simp: prepare_def Let_def split: sum.splits)
  then have "\<exists>e. preserveLegacyFiles RegExp_test st (Some a) v' = (Inl e, v')"
    by (auto simp: preserveLegacyFiles_def)
  with none show ?thesis
    by simp
qed

lemma RegExp_timestamp_pattern:
  "RegExp timestamp_pattern =
     Inr (literal ''_legacy_''
           (Seq (Group (Seq (Repeat (Cls False Digit) 14 (Some 14)) Empty)) (Seq Eol Empty)))"
  by code_simp

lemma ends_group_digits:
  "ends (Seq (Group (Seq (Repeat (Cls False Digit) 14 (Some 14)) Empty)) (Seq Eol Empty)) n t
     = (if length t = 14 \<and> list_all is_digit t then [[]] else [])"
proof -
  have "ends (Repeat (Cls False Digit) 14 (Some 14)) n t
          = (if 14 \<le> length t \<and> list_all is_digit (take 14 t) then [drop 14 t] else [])"
    using steps_one_char [of 14 "\<lambda>x. in_class Digit x \<noteq> False" t] by simp
  then show ?thesis
    by auto
qed

lemma tails_drop: "t \<in> set (tails s) \<longleftrightarrow> (\<exists>i\<le>length s. t = drop i s)"
proof (induction s)
  case Nil
  show ?case by simp
next
  case (Cons x xs)
  show ?case
  proof
    assume "t \<in> set (tails (x # xs))"
    then have "t = x # xs \<or> (\<exists>i\<le>length xs. t = drop i xs)"
      using Cons.IH by simp
    then show "\<exists>i\<le>length (x # xs). t = drop i (x # xs)"
    proof
      assume "t = x # xs"
      then have "t = drop 0 (x # xs)" by simp
      then show ?thesis by blast
    next
      assume "\<exists>i\<le>length xs. t = drop i xs"
      then obtain i where "i \<le> length xs" "t = drop i xs" by blast
      then have "Suc i \<le> length (x # xs)" "t = drop (Suc i) (x # xs)" by simp_all
      then show ?thesis by blast
    qed
  next
    assume "\<exists>i\<le>length (x # xs). t = drop i (x # xs)"
    then obtain i where i: "i \<le> length (x # xs)" "t = drop i (x # xs)" by blast
    show "t \<in> set (tails (x # xs))"
    proof (cases i)
      case 0
      with i show ?thesis by simp
    next
      case (Suc j)
      with i have "j \<le> length xs" "t = drop j xs" by simp_all
      then show ?thesis
        using Cons.IH by auto
    qed
  qed
qed

lemma two_ifs:
  "((if A then (if B then [x] else []) else []) \<noteq> []) = (A \<and> B)"
  by simp

lemma if_some: "((if A then Some x else None) \<noteq> None) = A"
  by simp

lemma length_drop_22:
  assumes "i \<le> length s" and "length (drop 8 (drop i s)) = 14" and "take 8 (drop i s) = ''_legacy_''"
  shows "22 \<le> length s \<and> i = length s - 22"
proof -
  have "length (take 8 (drop i s)) = 8"
    unfolding assms(3) by simp
  then have "8 \<le> length s - i"
    by (simp add: min_def split: if_splits)
  moreover have "length s - i - 8 = 14"
    using assms(2) by simp
  ultimately show ?thesis
    using assms(1) by arith
qed

lemma test_timestamp_pattern:
  assumes "RegExp timestamp_pattern = Inr r"
  shows "test r s \<longleftrightarrow> match_legacy_timestamp s \<noteq> None"
proof -
  let ?g = "Seq (Group (Seq (Repeat (Cls False Digit) 14 (Some 14)) Empty)) (Seq Eol Empty)"
  let ?ok = "\<lambda>t. take 8 t = ''_legacy_'' \<and> length (drop 8 t) = 14 \<and> list_all is_digit (drop 8 t)"
  have r: "r = literal ''_legacy_'' ?g"
    using assms unfolding RegExp_timestamp_pattern by (rule sum.inject(2) [THEN iffD1, symmetric])
  have e: "ends r n t \<noteq> [] \<longleftrightarrow> ?ok t" for n t
    unfolding r ends_literal ends_group_digits length_legacy by (rule two_ifs)
  have "test r s \<longleftrightarrow> (\<exists>t \<in> set (tails s). ?ok t)"
    unfolding test_def list_ex_iff e ..
  also have "\<dots> \<longleftrightarrow> (\<exists>i\<le>length s. ?ok (drop i s))"
    unfolding Bex_def tails_drop by blast
  also have "\<dots> \<longleftrightarrow> 22 \<le> length s \<and> ?ok (drop (length s - 22) s)"
  proof
    assume "\<exists>i\<le>length s. ?ok (drop i s)"
    then obtain i where i: "i \<le> length s" and ok: "?ok (drop i s)"
      by blast
    from length_drop_22 [OF i] ok have "22 \<le> length s" and "i = length s - 22"
      by blast+
    with ok show "22 \<le> length s \<and> ?ok (drop (length s - 22) s)"
      by blast
  next
    assume a: "22 \<le> length s \<and> ?ok (drop (length s - 22) s)"
    have "length s - 22 \<le> length s"
      by simp
    with a show "\<exists>i\<le>length s. ?ok (drop i s)"
      by blast
  qed
  also have "\<dots> \<longleftrightarrow> match_legacy_timestamp s \<noteq> None"
  proof (cases "22 \<le> length s")
    case True
    then have d: "drop 8 (drop (length s - 22) s) = drop (length s - 14) s"
      by (simp add: add.commute)
    have l: "length (drop (length s - 14) s) = 14"
      using True by simp
    have "match_legacy_timestamp s \<noteq> None \<longleftrightarrow>
            take 8 (drop (length s - 22) s) = ''_legacy_'' \<and> list_all is_digit (drop (length s - 14) s)"
      unfolding match_legacy_timestamp_def Let_def if_some using True by blast
    then show ?thesis
      unfolding d l using True by blast
  next
    case False
    then have "\<not> (match_legacy_timestamp s \<noteq> None)"
      unfolding match_legacy_timestamp_def Let_def if_some by blast
    with False show ?thesis
      by blast
  qed
  finally show ?thesis .
qed

lemma foldl_digits:
  "foldl (\<lambda>n c. 10 * n + ((of_char c :: nat) - 48)) a xs =
     a * 10 ^ length xs + foldl (\<lambda>n c. 10 * n + ((of_char c :: nat) - 48)) 0 xs"
  by (induction xs rule: rev_induct) (simp_all add: algebra_simps)

lemma timestamp_value_Cons:
  "timestamp_value (x # xs) = ((of_char x :: nat) - 48) * 10 ^ length xs + timestamp_value xs"
  unfolding timestamp_value_def
  using foldl_digits [of "(of_char x :: nat) - 48" xs] by simp

lemma timestamp_value_bound:
  "list_all is_digit xs \<Longrightarrow> timestamp_value xs < 10 ^ length xs"
proof (induction xs rule: rev_induct)
  case Nil
  show ?case by (simp add: timestamp_value_def)
next
  case (snoc x xs)
  then have v: "timestamp_value xs < 10 ^ length xs" and d: "(of_char x :: nat) - 48 \<le> 9"
    by (auto simp: is_digit_def)
  have "timestamp_value (xs @ [x]) = 10 * timestamp_value xs + ((of_char x :: nat) - 48)"
    by (simp add: timestamp_value_def)
  also have "\<dots> < 10 * (timestamp_value xs + 1)"
    using d by simp
  also have "\<dots> \<le> 10 * 10 ^ length xs"
    using v by simp
  finally show ?case
    by simp
qed

lemma localeCompare_value:
  assumes "length a = length b" and "list_all is_digit a" and "list_all is_digit b"
  shows "localeCompare a b \<le> 0 \<longleftrightarrow> timestamp_value a \<le> timestamp_value b"
  using assms
proof (induction a b rule: list_induct2)
  case Nil
  show ?case by simp
next
  case (Cons x xs y ys)
  let ?dx = "(of_char x :: nat) - 48" and ?dy = "(of_char y :: nat) - 48"
  let ?n = "length xs"
  from Cons.prems have xs: "list_all is_digit xs" and ys: "list_all is_digit ys"
    and ix: "is_digit x" and iy: "is_digit y"
    by simp_all
  from ix iy have dx: "48 \<le> (of_char x :: nat)" and dy: "48 \<le> (of_char y :: nat)"
    by (simp_all add: is_digit_def)
  have bx: "timestamp_value xs < 10 ^ ?n"
    by (rule timestamp_value_bound [OF xs])
  have by': "timestamp_value ys < 10 ^ ?n"
    using timestamp_value_bound [OF ys] Cons.hyps by simp
  have IH: "localeCompare xs ys \<le> 0 \<longleftrightarrow> timestamp_value xs \<le> timestamp_value ys"
    by (rule Cons.IH [OF xs ys])
  have vx: "timestamp_value (x # xs) = ?dx * 10 ^ ?n + timestamp_value xs"
    by (rule timestamp_value_Cons)
  have vy: "timestamp_value (y # ys) = ?dy * 10 ^ ?n + timestamp_value ys"
    using timestamp_value_Cons [of y ys] Cons.hyps by simp
  consider (lt) "?dx < ?dy" | (eq) "?dx = ?dy" | (gt) "?dy < ?dx"
    by linarith
  then show ?case
  proof cases
    case lt
    then have "(?dx + 1) * 10 ^ ?n \<le> ?dy * 10 ^ ?n"
      by (intro mult_le_mono1) simp
    then have "?dx * 10 ^ ?n + 10 ^ ?n \<le> ?dy * 10 ^ ?n"
      by (simp add: algebra_simps)
    with bx have "timestamp_value (x # xs) \<le> timestamp_value (y # ys)"
      unfolding vx vy by linarith
    moreover from lt dx dy have "(of_char x :: nat) < of_char y"
      by linarith
    ultimately show ?thesis
      unfolding localeCompare_Cons by simp
  next
    case eq
    with dx dy have e: "(of_char x :: nat) = of_char y"
      by linarith
    show ?thesis
      unfolding localeCompare_Cons vx vy using e IH by simp
  next
    case gt
    then have "(?dy + 1) * 10 ^ ?n \<le> ?dx * 10 ^ ?n"
      by (intro mult_le_mono1) simp
    then have "?dy * 10 ^ ?n + 10 ^ ?n \<le> ?dx * 10 ^ ?n"
      by (simp add: algebra_simps)
    with by' have "\<not> timestamp_value (x # xs) \<le> timestamp_value (y # ys)"
      unfolding vx vy by linarith
    moreover from gt dx dy have "(of_char y :: nat) < of_char x"
      by linarith
    then have "\<not> localeCompare (x # xs) (y # ys) \<le> 0"
      unfolding localeCompare_Cons by linarith
    ultimately show ?thesis
      by blast
  qed
qed

lemma compare_stamped_in_order:
  assumes "length (timestamp x) = 14" and "list_all is_digit (timestamp x)"
    and "length (timestamp y) = 14" and "list_all is_digit (timestamp y)"
  shows "compare_stamped order x y \<le> 0 \<longleftrightarrow> in_order order (timestamp x) (timestamp y)"
proof (cases order)
  case Asc
  then show ?thesis
    using localeCompare_value [of "timestamp x" "timestamp y"] assms
    by (simp add: compare_stamped_def)
next
  case Desc
  then show ?thesis
    using localeCompare_value [of "timestamp y" "timestamp x"] assms
    by (simp add: compare_stamped_def)
qed

lemma in_order_refl: "in_order order s s"
  by (cases order) simp_all

lemma prepare_in_order:
  assumes "prepare engine st a v = Inr p"
  shows "sorted_wrt (\<lambda>x y. in_order (sortOrder st) (timestamp x) (timestamp y)) (filesWithTimestamp p)"
proof -
  from prepare_files [OF assms] have
    "sorted_wrt (\<lambda>x y. compare_stamped (sortOrder st) x y \<le> 0) (filesWithTimestamp p)"
    by (auto simp: sorted_sort_with)
  then show ?thesis
  proof (rule sorted_wrt_mono_rel [rotated])
    fix x y
    assume "x \<in> set (filesWithTimestamp p)" and "y \<in> set (filesWithTimestamp p)"
      and c: "compare_stamped (sortOrder st) x y \<le> 0"
    then have "length (timestamp x) = 14" "list_all is_digit (timestamp x)"
      "length (timestamp y) = 14" "list_all is_digit (timestamp y)"
      using prepare_timestamps [OF assms] by blast+
    from compare_stamped_in_order [OF this] c
    show "in_order (sortOrder st) (timestamp x) (timestamp y)"
      by simp
  qed
qed

lemma sorted_wrt_first:
  assumes "sorted_wrt P xs" and "e \<in> set xs" and "\<And>x. P x x"
  shows "P (hd xs) e"
  using assms by (cases xs) auto

lemma sorted_wrt_final:
  assumes "sorted_wrt P xs" and "e \<in> set xs" and "\<And>x. P x x"
  shows "P e (last xs)"
  using assms by (induction xs) auto

lemma prepare_entries:
  assumes "prepare engine st a v = Inr p"
  shows "\<exists>legacyFiles.
           filter_legacy engine (basename a) (normalizePath (legacyFolder st)) (getFiles v) = Inr legacyFiles
           \<and> set (filesWithTimestamp p) = with_timestamp ` set legacyFiles
           \<and> length (filesWithTimestamp p) = length legacyFiles"
  using prepare_files [OF assms] by (auto simp: set_sort_with length_sort_with)

lemma empty_filter_no_snapshots:
  assumes "adapter_exists v (normalizePath (legacyFolder st)) = Inr True"
    and "filter_legacy engine (basename a) (normalizePath (legacyFolder st)) (getFiles v) = Inr []"
  shows "preserveLegacyFiles engine st (Some a) v = (Inl NoSnapshots, v)"
  using assms by (simp add: preserveLegacyFiles_def prepare_def)

lemma plain_no_snapshots:
  assumes "plain (basename a)"
    and "adapter_exists v (normalizePath (legacyFolder st)) = Inr True"
    and "\<And>f. f \<in> set (getFiles v) \<Longrightarrow>
            (case parent f of Some p \<Rightarrow> normalizePath p | None \<Rightarrow> []) = normalizePath (legacyFolder st) \<Longrightarrow>
            \<not> snapshot_name (basename a) (basename f)"
  shows "preserveLegacyFiles RegExp_test st (Some a) v = (Inl NoSnapshots, v)"
proof -
  let ?dir = "normalizePath (legacyFolder st)"
  let ?P = "\<lambda>f. (case parent f of Some p \<Rightarrow> normalizePath p | None \<Rightarrow> []) = ?dir
                 \<and> snapshot_name (basename a) (basename f)"
  have "filter_legacy RegExp_test (basename a) ?dir (getFiles v) = Inr (filter ?P (getFiles v))"
    by (rule filter_legacy_filter) (rule matchesPattern_plain [OF assms(1)])
  moreover have "filter ?P (getFiles v) = []"
    unfolding filter_empty_conv using assms(3) by blast
  ultimately show ?thesis
    using empty_filter_no_snapshots [OF assms(2)] by simp
qed

section \<open>The claims\<close>

text \<open>
  Claim C1. Whatever the pattern engine, after a successful run of
  \<open>preserveLegacyFiles\<close> at least one file had passed the filter, no file of the vault
  has the path of a file that passed it, and the files of the vault are the others, as
  they were, and one new file in the archive folder that bears the name of the
  consolidated file. The base name of the document holds no path separator.
\<close>

theorem consolidate_replaces_snapshots:
  assumes "preserveLegacyFiles engine st (Some a) v = (Inr name, v')"
    and "CHR ''/'' \<notin> set (basename a)"
  shows "\<exists>legacyFiles new body.
           filter_legacy engine (basename a) (normalizePath (legacyFolder st)) (getFiles v) = Inr legacyFiles
           \<and> legacyFiles \<noteq> []
           \<and> path ` set legacyFiles \<inter> set (paths v') = {}
           \<and> files v' = filter (\<lambda>fc. path (fst fc) \<notin> path ` set legacyFiles) (files v) @ [(new, body)]
           \<and> path new \<notin> set (paths v)
           \<and> parent new = Some (normalizePath (legacyFolder st))
           \<and> basename new @ ''.md'' = name"
proof -
  from consolidate_effect [OF assms] obtain p legacyFiles where
    p: "prepare engine st a v = Inr p" and n: "name = preservedFileName p"
    and f: "filter_legacy engine (basename a) (normalizePath (legacyFolder st)) (getFiles v) = Inr legacyFiles"
    and ne: "legacyFiles \<noteq> []"
    and fresh: "preservedFilePath p \<notin> set (paths v)"
    and new: "tfile_of_path (preservedFilePath p) =
               \<lparr>path = preservedFilePath p,
                basename = basename a @ ''_legacy_'' @ timestamp (hd (filesWithTimestamp p)) @ ''-''
                             @ timestamp (last (filesWithTimestamp p)),
                extension = ''md'',
                parent = Some (normalizePath (legacyFolder st))\<rparr>"
    and v': "v' = v\<lparr>files := filter (\<lambda>fc. path (fst fc) \<notin> path ` set legacyFiles) (files v)
                                 @ [(tfile_of_path (preservedFilePath p), preservedContent p)]\<rparr>"
    by blast
  let ?new = "tfile_of_path (preservedFilePath p)"
  have pn: "path ?new = preservedFilePath p"
    by (simp add: tfile_of_path_def Let_def)
  have sub: "path ` set legacyFiles \<subseteq> set (paths v)"
    using filter_legacy_subset [OF f] by (auto simp: paths_def)
  with fresh have keep: "path ?new \<notin> path ` set legacyFiles"
    using pn by auto
  have files: "files v' =
      filter (\<lambda>fc. path (fst fc) \<notin> path ` set legacyFiles) (files v) @ [(?new, preservedContent p)]"
    by (simp add: v')
  have gone: "path ` set legacyFiles \<inter> set (paths v') = {}"
  proof -
    have "q \<notin> set (paths v')" if q: "q \<in> path ` set legacyFiles" for q
    proof
      assume "q \<in> set (paths v')"
      then obtain fc where fc: "fc \<in> set (files v')" and qfc: "q = path (fst fc)"
        by (auto simp: paths_def getFiles_def)
      from fc have "fc = (?new, preservedContent p) \<or> path (fst fc) \<notin> path ` set legacyFiles"
        unfolding files by auto
      then show False
      proof
        assume "fc = (?new, preservedContent p)"
        with qfc q keep show False by simp
      next
        assume "path (fst fc) \<notin> path ` set legacyFiles"
        with qfc q show False by simp
      qed
    qed
    then show ?thesis
      by (meson disjoint_iff)
  qed
  have "preservedFileName p =
          (basename a @ ''_legacy_'' @ timestamp (hd (filesWithTimestamp p)) @ ''-''
            @ timestamp (last (filesWithTimestamp p))) @ ''.md''"
    using prepare_name [OF p] by simp
  then have "parent ?new = Some (normalizePath (legacyFolder st))" and "basename ?new @ ''.md'' = name"
    using new n by simp_all
  with f ne gone files fresh pn show ?thesis
    by auto
qed

theorem consolidate_replaces_snapshots_witness:
  "preserveLegacyFiles RegExp_test descending (Some draft) (draft_vault ''nine'' ''ten'' ''eleven'')
     = (Inr ''draft_legacy_20240101110000-20240101090000.md'',
        consolidated_vault ''nine'' ''ten'' ''eleven'')
   \<and> CHR ''/'' \<notin> set (basename draft)
   \<and> (\<exists>legacyFiles new body.
         filter_legacy RegExp_test (basename draft) (normalizePath (legacyFolder descending))
           (getFiles (draft_vault ''nine'' ''ten'' ''eleven'')) = Inr legacyFiles
         \<and> legacyFiles \<noteq> []
         \<and> path ` set legacyFiles \<inter> set (paths (consolidated_vault ''nine'' ''ten'' ''eleven'')) = {}
         \<and> files (consolidated_vault ''nine'' ''ten'' ''eleven'')
             = filter (\<lambda>fc. path (fst fc) \<notin> path ` set legacyFiles)
                 (files (draft_vault ''nine'' ''ten'' ''eleven'')) @ [(new, body)]
         \<and> path new \<notin> set (paths (draft_vault ''nine'' ''ten'' ''eleven''))
         \<and> parent new = Some (normalizePath (legacyFolder descending))
         \<and> basename new @ ''.md'' = ''draft_legacy_20240101110000-20240101090000.md'')"
proof -
  have h1: "preserveLegacyFiles RegExp_test descending (Some draft) (draft_vault ''nine'' ''ten'' ''eleven'')
              = (Inr ''draft_legacy_20240101110000-20240101090000.md'',
                 consolidated_vault ''nine'' ''ten'' ''eleven'')"
    by code_simp
  have h2: "CHR ''/'' \<notin> set (basename draft)"
    by code_simp
  show ?thesis
    using h1 h2 consolidate_replaces_snapshots [OF h1 h2] by simp
qed

text \<open>
  Claim C2, amended. For a document without a path separator in its base name and a
  time with a year of four digits: when no storage call fails, the document can be
  read and no file exists at the path of the snapshot, \<open>createLegacyFile\<close> succeeds and
  adds exactly one file to the vault. The file lies in the archive folder, which
  exists afterwards, its name is the base name, \<open>_legacy_\<close> and the fourteen digits of
  the time, and its content is the content read from the document.
\<close>

theorem snapshot_written:
  assumes "valid_date now" and "CHR ''/'' \<notin> set (basename d)"
    and "broken v = []"
    and "vault_read v d = Inr content"
    and "normalizePath (normalizePath (legacyFolder st) @ ''/'' @ basename d @ ''_legacy_''
           @ getTimestamp now @ ''.md'') \<notin> set (paths v)"
  shows "\<exists>new v'.
           createLegacyFile st now (Some d) v
             = (Inr (basename d @ ''_legacy_'' @ getTimestamp now @ ''.md''), v')
           \<and> files v' = files v @ [(new, content)]
           \<and> path new \<notin> set (paths v)
           \<and> parent new = Some (normalizePath (legacyFolder st))
           \<and> adapter_exists v' (normalizePath (legacyFolder st)) = Inr True
           \<and> basename new = basename d @ ''_legacy_'' @ fmt14 now
           \<and> getTimestamp now = fmt14 now
           \<and> length (fmt14 now) = 14
           \<and> list_all is_digit (fmt14 now)"
proof -
  let ?dir = "normalizePath (legacyFolder st)"
  let ?b = "basename d @ ''_legacy_'' @ getTimestamp now"
  let ?p = "normalizePath (?dir @ ''/'' @ ?b @ ''.'' @ ''md'')"
  let ?v1 = "if ?dir = ''/'' \<or> ?dir \<in> set (folders v) \<or> ?dir \<in> set (paths v) then v
             else v\<lparr>folders := List.insert ?dir (folders v)\<rparr>"
  let ?v2 = "?v1\<lparr>files := files ?v1 @ [(tfile_of_path ?p, content)]\<rparr>"
  have t: "getTimestamp now = fmt14 now" "length (fmt14 now) = 14" "list_all is_digit (fmt14 now)"
    by (rule getTimestamp_fmt14 [OF assms(1)])+
  have "CHR ''/'' \<notin> set (fmt14 now)"
    by (rule digits_no_sep [OF t(3)])
  then have b: "CHR ''/'' \<notin> set ?b"
    using assms(2) t(1) by simp
  have new: "tfile_of_path ?p = \<lparr>path = ?p, basename = ?b, extension = ''md'', parent = Some ?dir\<rparr>"
    by (rule tfile_of_child [OF b]) simp_all
  have fresh: "?p \<notin> set (paths v)"
    using assms(5) by simp
  have run: "createLegacyFile st now (Some d) v = (Inr (?b @ ''.md''), ?v2)"
    using assms(3,4) fresh
    by (simp add: createLegacyFile_def Let_def adapter_exists_def createFolder_def
        vault_create_def paths_def getFiles_def)
  have "files ?v2 = files v @ [(tfile_of_path ?p, content)]"
    by simp
  moreover have "adapter_exists ?v2 ?dir = Inr True"
    using assms(3) by (simp add: adapter_exists_def paths_def getFiles_def)
  ultimately show ?thesis
    using run new fresh t by (intro exI [of _ "tfile_of_path ?p"] exI [of _ ?v2]) simp
qed

theorem snapshot_written_witness:
  "valid_date noon \<and> CHR ''/'' \<notin> set (basename draft)
   \<and> broken (draft_vault ''nine'' ''ten'' ''eleven'') = []
   \<and> vault_read (draft_vault ''nine'' ''ten'' ''eleven'') draft = Inr ''now''
   \<and> (\<exists>new v'.
         createLegacyFile ascending noon (Some draft) (draft_vault ''nine'' ''ten'' ''eleven'')
           = (Inr (basename draft @ ''_legacy_'' @ getTimestamp noon @ ''.md''), v')
         \<and> files v' = files (draft_vault ''nine'' ''ten'' ''eleven'') @ [(new, ''now'')]
         \<and> parent new = Some (normalizePath (legacyFolder ascending))
         \<and> basename new = basename draft @ ''_legacy_'' @ fmt14 noon)
   \<and> basename draft @ ''_legacy_'' @ fmt14 noon = ''draft_legacy_20240101120000''"
proof -
  have h1: "valid_date noon" by code_simp
  have h2: "CHR ''/'' \<notin> set (basename draft)" by code_simp
  have h3: "broken (draft_vault ''nine'' ''ten'' ''eleven'') = []" by code_simp
  have h4: "vault_read (draft_vault ''nine'' ''ten'' ''eleven'') draft = Inr ''now''" by code_simp
  have h5: "normalizePath (normalizePath (legacyFolder ascending) @ ''/'' @ basename draft
              @ ''_legacy_'' @ getTimestamp noon @ ''.md'')
            \<notin> set (paths (draft_vault ''nine'' ''ten'' ''eleven''))"
    by code_simp
  have h6: "basename draft @ ''_legacy_'' @ fmt14 noon = ''draft_legacy_20240101120000''"
    by code_simp
  from snapshot_written [OF h1 h2 h3 h4 h5] have
    "\<exists>new v'.
         createLegacyFile ascending noon (Some draft) (draft_vault ''nine'' ''ten'' ''eleven'')
           = (Inr (basename draft @ ''_legacy_'' @ getTimestamp noon @ ''.md''), v')
         \<and> files v' = files (draft_vault ''nine'' ''ten'' ''eleven'') @ [(new, ''now'')]
         \<and> parent new = Some (normalizePath (legacyFolder ascending))
         \<and> basename new = basename draft @ ''_legacy_'' @ fmt14 noon"
    by blast
  with h1 h2 h3 h4 h6 show ?thesis
    by blast
qed

text \<open>
  Claim C2 as stated fails when a file of that name exists already: at nine o'clock the
  vault holds the snapshot of nine o'clock, the creation fails and no file is added.
\<close>

theorem snapshot_collision:
  "valid_date nine_o_clock
   \<and> vault_read (draft_vault ''nine'' ''ten'' ''eleven'') draft = Inr ''now''
   \<and> createLegacyFile ascending nine_o_clock (Some draft) (draft_vault ''nine'' ''ten'' ''eleven'')
       = (Inl StorageFailure, draft_vault ''nine'' ''ten'' ''eleven'')"
  by code_simp

text \<open>
  Claim C3. Whatever the pattern engine, the content of the consolidated file is the
  body that the specification describes, built from the snapshots in sorted order,
  each with its timestamp and the content read from the vault: for the first a header
  line, a blank line and the content, for every further one the separator block and
  then the same.
\<close>

theorem body_layout:
  assumes "prepare engine st a v = Inr p"
  shows "\<exists>contents.
           map (\<lambda>e. vault_read v (file' e)) (filesWithTimestamp p) = map Inr contents
           \<and> preservedContent p =
               spec_body (basename a) (zip (map timestamp (filesWithTimestamp p)) contents)"
  by (rule prepare_body [OF assms])

theorem body_layout_witness:
  "prepare RegExp_test descending draft (draft_vault ''nine'' ''ten'' ''eleven'') = Inr draft_plan
   \<and> (\<exists>contents.
         map (\<lambda>e. vault_read (draft_vault ''nine'' ''ten'' ''eleven'') (file' e))
           (filesWithTimestamp draft_plan) = map Inr contents
         \<and> preservedContent draft_plan =
             spec_body (basename draft) (zip (map timestamp (filesWithTimestamp draft_plan)) contents))"
proof -
  have h: "prepare RegExp_test descending draft (draft_vault ''nine'' ''ten'' ''eleven'') = Inr draft_plan"
    by code_simp
  show ?thesis
    using h body_layout [OF h] by simp
qed

text \<open>
  Claim C4. Whatever the pattern engine, the snapshots that are merged are the files
  that pass the filter, sorted by timestamp in the direction of the setting: with the
  timestamps read as numbers, no snapshot comes before one of a smaller timestamp in
  ascending order, nor before one of a larger timestamp in descending order, so that
  the first snapshot carries the earliest timestamp and the last the latest in
  ascending order, and the other way round in descending order. The consolidated file
  is named after the owner, the timestamp of the first snapshot in that order and the
  timestamp of the last; so is the entry that the vault makes for it when the base
  name of the owner holds no path separator. For the base name \<open>draft\<close> with snapshots
  at 09:00, 10:00 and 11:00, which the vault lists as 10:00, 09:00, 11:00, the name in
  descending order is \<open>draft_legacy_20240101110000-20240101090000\<close> and the body
  holds the contents of 11:00, 10:00 and 09:00 in this order; in ascending order the
  name is \<open>draft_legacy_20240101090000-20240101110000\<close> and the body holds the
  contents of 09:00, 10:00 and 11:00.
\<close>

theorem consolidated_name:
  "(\<forall>st a v p. prepare engine st a v = Inr p \<longrightarrow>
      filesWithTimestamp p \<noteq> []
      \<and> sorted_wrt (\<lambda>x y. compare_stamped (sortOrder st) x y \<le> 0) (filesWithTimestamp p)
      \<and> preservedFileName p =
          storageName (basename a) (timestamp (hd (filesWithTimestamp p))) @ ''-''
            @ timestamp (last (filesWithTimestamp p)) @ ''.md''
      \<and> (CHR ''/'' \<notin> set (basename a) \<longrightarrow>
          basename (tfile_of_path (preservedFilePath p)) =
            storageName (basename a) (timestamp (hd (filesWithTimestamp p))) @ ''-''
              @ timestamp (last (filesWithTimestamp p)))
      \<and> (\<exists>legacyFiles.
            filter_legacy engine (basename a) (normalizePath (legacyFolder st)) (getFiles v)
              = Inr legacyFiles
            \<and> set (filesWithTimestamp p) = with_timestamp ` set legacyFiles
            \<and> length (filesWithTimestamp p) = length legacyFiles)
      \<and> sorted_wrt (\<lambda>x y. in_order (sortOrder st) (timestamp x) (timestamp y))
          (filesWithTimestamp p)
      \<and> (\<forall>e \<in> set (filesWithTimestamp p).
            in_order (sortOrder st) (timestamp (hd (filesWithTimestamp p))) (timestamp e)
            \<and> in_order (sortOrder st) (timestamp e) (timestamp (last (filesWithTimestamp p)))))
   \<and> (\<forall>c09 c10 c11.
        preserveLegacyFiles RegExp_test descending (Some draft) (draft_vault c09 c10 c11)
          = (Inr ''draft_legacy_20240101110000-20240101090000.md'', consolidated_vault c09 c10 c11))
   \<and> basename (tfile_of_path ''legacy/draft_legacy_20240101110000-20240101090000.md'')
       = ''draft_legacy_20240101110000-20240101090000''
   \<and> (\<forall>c09 c10 c11.
        preserveLegacyFiles RegExp_test ascending (Some draft) (draft_vault c09 c10 c11)
          = (Inr ''draft_legacy_20240101090000-20240101110000.md'',
             consolidated_ascending_vault c09 c10 c11))
   \<and> basename (tfile_of_path ''legacy/draft_legacy_20240101090000-20240101110000.md'')
       = ''draft_legacy_20240101090000-20240101110000''"
proof (intro conjI allI impI ballI)
  fix st a v p
  assume p: "prepare engine st a v = Inr p"
  show "filesWithTimestamp p \<noteq> []"
    by (rule prepare_nonempty [OF p])
  from prepare_files [OF p] show
    "sorted_wrt (\<lambda>x y. compare_stamped (sortOrder st) x y \<le> 0) (filesWithTimestamp p)"
    by (auto simp: sorted_sort_with)
  show name: "preservedFileName p =
          storageName (basename a) (timestamp (hd (filesWithTimestamp p))) @ ''-''
            @ timestamp (last (filesWithTimestamp p)) @ ''.md''"
    using prepare_name [OF p] by (simp add: storageName_def)
  show "\<exists>legacyFiles.
            filter_legacy engine (basename a) (normalizePath (legacyFolder st)) (getFiles v)
              = Inr legacyFiles
            \<and> set (filesWithTimestamp p) = with_timestamp ` set legacyFiles
            \<and> length (filesWithTimestamp p) = length legacyFiles"
    by (rule prepare_entries [OF p])
  show s: "sorted_wrt (\<lambda>x y. in_order (sortOrder st) (timestamp x) (timestamp y))
          (filesWithTimestamp p)"
    by (rule prepare_in_order [OF p])
  {
    fix e
    assume e: "e \<in> set (filesWithTimestamp p)"
    show "in_order (sortOrder st) (timestamp (hd (filesWithTimestamp p))) (timestamp e)"
      by (rule sorted_wrt_first [OF s e]) (rule in_order_refl)
    show "in_order (sortOrder st) (timestamp e) (timestamp (last (filesWithTimestamp p)))"
      by (rule sorted_wrt_final [OF s e]) (rule in_order_refl)
  }
  assume a: "CHR ''/'' \<notin> set (basename a)"
  let ?b = "storageName (basename a) (timestamp (hd (filesWithTimestamp p))) @ ''-''
              @ timestamp (last (filesWithTimestamp p))"
  have "filesWithTimestamp p \<noteq> []"
    by (rule prepare_nonempty [OF p])
  then have "hd (filesWithTimestamp p) \<in> set (filesWithTimestamp p)"
    and "last (filesWithTimestamp p) \<in> set (filesWithTimestamp p)"
    by simp_all
  then have "CHR ''/'' \<notin> set (timestamp (hd (filesWithTimestamp p)))"
    and "CHR ''/'' \<notin> set (timestamp (last (filesWithTimestamp p)))"
    using prepare_timestamps [OF p] digits_no_sep by blast+
  then have b: "CHR ''/'' \<notin> set ?b"
    using a by (simp add: storageName_def)
  from prepare_content [OF p] name
  have "preservedFilePath p =
          normalizePath (normalizePath (legacyFolder st) @ ''/'' @ ?b @ ''.'' @ ''md'')"
    by auto
  then show "basename (tfile_of_path (preservedFilePath p)) = ?b"
    using tfile_of_child [OF b, of "''md''" "legacyFolder st"] by simp
next
  fix c09 c10 c11
  show "preserveLegacyFiles RegExp_test descending (Some draft) (draft_vault c09 c10 c11)
          = (Inr ''draft_legacy_20240101110000-20240101090000.md'', consolidated_vault c09 c10 c11)"
    apply code_simp
    apply simp
    done
next
  show "basename (tfile_of_path ''legacy/draft_legacy_20240101110000-20240101090000.md'')
       = ''draft_legacy_20240101110000-20240101090000''"
    by code_simp
next
  fix c09 c10 c11
  show "preserveLegacyFiles RegExp_test ascending (Some draft) (draft_vault c09 c10 c11)
          = (Inr ''draft_legacy_20240101090000-20240101110000.md'',
             consolidated_ascending_vault c09 c10 c11)"
    apply code_simp
    apply simp
    done
next
  show "basename (tfile_of_path ''legacy/draft_legacy_20240101090000-20240101110000.md'')
       = ''draft_legacy_20240101090000-20240101110000''"
    by code_simp
qed

theorem consolidated_name_witness:
  "prepare RegExp_test descending draft (draft_vault ''nine'' ''ten'' ''eleven'') = Inr draft_plan
   \<and> CHR ''/'' \<notin> set (basename draft)
   \<and> preservedFileName draft_plan =
       storageName (basename draft) (timestamp (hd (filesWithTimestamp draft_plan))) @ ''-''
         @ timestamp (last (filesWithTimestamp draft_plan)) @ ''.md''
   \<and> basename (tfile_of_path (preservedFilePath draft_plan)) =
       storageName (basename draft) (timestamp (hd (filesWithTimestamp draft_plan))) @ ''-''
         @ timestamp (last (filesWithTimestamp draft_plan))
   \<and> \<lparr>file' = fst (snapshot ''draft_legacy_20240101100000'' ''ten''),
        timestamp = ''20240101100000''\<rparr> \<in> set (filesWithTimestamp draft_plan)
   \<and> in_order Desc (timestamp (hd (filesWithTimestamp draft_plan))) ''20240101100000''
   \<and> in_order Desc ''20240101100000'' (timestamp (last (filesWithTimestamp draft_plan)))
   \<and> sorted_wrt (\<lambda>x y. in_order Desc (timestamp x) (timestamp y)) (filesWithTimestamp draft_plan)"
proof -
  let ?e = "\<lparr>file' = fst (snapshot ''draft_legacy_20240101100000'' ''ten''),
             timestamp = ''20240101100000''\<rparr>"
  have h1: "prepare RegExp_test descending draft (draft_vault ''nine'' ''ten'' ''eleven'') = Inr draft_plan"
    by code_simp
  have h2: "CHR ''/'' \<notin> set (basename draft)"
    by code_simp
  have h3: "?e \<in> set (filesWithTimestamp draft_plan)"
    by code_simp
  have o: "sortOrder descending = Desc"
    by code_simp
  note r = consolidated_name [THEN conjunct1, rule_format, OF h1]
  from r have r1: "preservedFileName draft_plan =
       storageName (basename draft) (timestamp (hd (filesWithTimestamp draft_plan))) @ ''-''
         @ timestamp (last (filesWithTimestamp draft_plan)) @ ''.md''"
    by blast
  from r h2 have r2: "basename (tfile_of_path (preservedFilePath draft_plan)) =
       storageName (basename draft) (timestamp (hd (filesWithTimestamp draft_plan))) @ ''-''
         @ timestamp (last (filesWithTimestamp draft_plan))"
    by blast
  from r have r3: "sorted_wrt (\<lambda>x y. in_order (sortOrder descending) (timestamp x) (timestamp y))
      (filesWithTimestamp draft_plan)"
    by blast
  from r have "\<forall>e \<in> set (filesWithTimestamp draft_plan).
      in_order (sortOrder descending) (timestamp (hd (filesWithTimestamp draft_plan))) (timestamp e)
      \<and> in_order (sortOrder descending) (timestamp e) (timestamp (last (filesWithTimestamp draft_plan)))"
    by blast
  from this [rule_format, OF h3] have
    r4: "in_order Desc (timestamp (hd (filesWithTimestamp draft_plan))) ''20240101100000''"
    and r5: "in_order Desc ''20240101100000'' (timestamp (last (filesWithTimestamp draft_plan)))"
    unfolding o by simp_all
  from h1 h2 r1 r2 h3 r4 r5 r3 [unfolded o] show ?thesis
    by blast
qed




text \<open>
  Claim C6. Whatever the pattern engine, when the creation of the consolidated file
  fails, \<open>preserveLegacyFiles\<close> reports the failure and returns the vault as it was;
  every snapshot that was to be merged is still a file of the vault.
\<close>

theorem create_fails_keeps_snapshots:
  assumes "prepare engine st a v = Inr p"
    and "vault_create v (preservedFilePath p) (preservedContent p) = Inl e"
  shows "preserveLegacyFiles engine st (Some a) v = (Inl StorageFailure, v)
         \<and> file' ` set (filesWithTimestamp p)
             \<subseteq> set (getFiles (snd (preserveLegacyFiles engine st (Some a) v)))"
  using assms prepare_snapshots_in_vault [OF assms(1)]
  by (simp add: preserveLegacyFiles_def)

theorem create_fails_keeps_snapshots_witness:
  "prepare RegExp_test ascending draft taken_vault = Inr taken_plan
   \<and> vault_create taken_vault (preservedFilePath taken_plan) (preservedContent taken_plan)
       = Inl StorageFailure
   \<and> preserveLegacyFiles RegExp_test ascending (Some draft) taken_vault = (Inl StorageFailure, taken_vault)
   \<and> fst (snapshot ''draft_legacy_20240101090000'' ''nine'') \<in> set (getFiles taken_vault)"
proof -
  have h1: "prepare RegExp_test ascending draft taken_vault = Inr taken_plan"
    by code_simp
  have h2: "vault_create taken_vault (preservedFilePath taken_plan) (preservedContent taken_plan)
              = Inl StorageFailure"
    by code_simp
  have h3: "fst (snapshot ''draft_legacy_20240101090000'' ''nine'') \<in> set (getFiles taken_vault)"
    by code_simp
  show ?thesis
    using h1 h2 h3 create_fails_keeps_snapshots [OF h1 h2] by simp
qed

text \<open>
  Claim C7. For the owners \<open>note\<close>, \<open>note2\<close> and \<open>notex\<close> the pattern test answers as the
  claim says, and it rejects the name with thirteen digits for the owner \<open>note\<close> and for
  every other owner without pattern syntax (\<open>thirteen_digits_rejected\<close>). It does not
  reject it for every owner: the base name goes into the pattern as it is, and the bar
  of the owner \<open>note|x\<close> splits the pattern into two alternatives, the first of which,
  \<open>^note\<close>, matches the name with thirteen digits.
\<close>

theorem pattern_examples:
  "matchesPattern RegExp_test ''note'' ''note_legacy_20240101000000'' = Inr True
   \<and> matchesPattern RegExp_test ''note2'' ''note_legacy_20240101000000'' = Inr False
   \<and> matchesPattern RegExp_test ''notex'' ''note_legacy_20240101000000'' = Inr False
   \<and> matchesPattern RegExp_test ''note'' ''note_legacy_2024010100000'' = Inr False
   \<and> matchesPattern RegExp_test ''note|x'' ''note_legacy_2024010100000'' = Inr True"
  by code_simp

text \<open>
  Claim C8. When the archive folder exists and the filter ends with no file,
  \<open>preserveLegacyFiles\<close> reports \<open>NoSnapshots\<close> and returns the vault as it was,
  whatever the pattern engine (\<open>empty_filter_no_snapshots\<close>); so it does for every
  owner without pattern syntax whose archive holds no snapshot of it
  (\<open>plain_no_snapshots\<close>). It does not for every owner: the base name goes into the
  pattern as it is, the constructor rejects the pattern of the owner \<open>C++\<close> at the
  first file of the vault, and the run reports the failure of the catch clause, with
  the vault as it was, although the archive folder exists and holds no file.
\<close>

theorem invalid_pattern_reported:
  "RegExp (legacy_pattern (basename plus)) = Inl SyntaxError
   \<and> matchesPattern RegExp_test (basename plus) (basename plus) = Inl SyntaxError
   \<and> adapter_exists plus_vault (normalizePath (legacyFolder ascending)) = Inr True
   \<and> filter (\<lambda>f. parent f = Some ''legacy'') (getFiles plus_vault) = []
   \<and> preserveLegacyFiles RegExp_test ascending (Some plus) plus_vault
       = (Inl StorageFailure, plus_vault)"
  by code_simp

text \<open>
  Claim C9. For an owner without pattern syntax every file that passes the filter has
  its fourteen digits extracted (\<open>plain_timestamps\<close>). For the owner \<open>a|b\<close> the file
  \<open>abc\<close> of the archive passes the filter, the extraction finds no match, and the file
  is consolidated under the timestamp of the fallback branch.
\<close>

theorem fallback_reached:
  "filter_legacy RegExp_test (basename bar) ''legacy'' (getFiles bar_vault) = Inr [tfile_of_path ''legacy/abc.md'']
   \<and> match_legacy_timestamp (basename (tfile_of_path ''legacy/abc.md'')) = None
   \<and> timestamp (with_timestamp (tfile_of_path ''legacy/abc.md'')) = ''00000000000000''
   \<and> preserveLegacyFiles RegExp_test ascending (Some bar) bar_vault =
       (Inr ''a|b_legacy_00000000000000-00000000000000.md'', bar_letters)"
  by code_simp

text \<open>
  Claim C10. For an owner without pattern syntax the name of a consolidated file does
  not pass the pattern test (\<open>record_name_rejected\<close>), and a second run after a
  successful one finds no file and leaves the vault as it is
  (\<open>plain_consolidate_again\<close>). For the owner \<open>a|b\<close> the name of the consolidated file
  passes the test, and the second run merges the consolidated file of the first run
  into a new one and deletes it.
\<close>

theorem record_consumed_again:
  "matchesPattern RegExp_test ''a|b'' ''a|b_legacy_20240101090000-20240101090000'' = Inr True
   \<and> preserveLegacyFiles RegExp_test ascending (Some bar) bar_snapshot_vault =
       (Inr ''a|b_legacy_20240101090000-20240101090000.md'', bar_once)
   \<and> preserveLegacyFiles RegExp_test ascending (Some bar) bar_once =
       (Inr ''a|b_legacy_00000000000000-00000000000000.md'', bar_twice)"
  by code_simp

end
